theory Spec2Isabelle
  imports Complex_Main
begin

section \<open>Values of the script\<close>

text \<open>
  The script \<^verbatim>\<open>ab_test_visualizations.py\<close> works on four Python integers and on
  floating-point numbers. Python integers are \<^typ>\<open>int\<close>, of any size. A NumPy scalar
  (what \<^verbatim>\<open>np.sqrt\<close> and \<^verbatim>\<open>stats.norm.cdf\<close> return) is a finite number or one of the
  IEEE special values, since NumPy does not raise on a division by zero or on the square
  root of a negative number.
\<close>

text \<open>
  A Python \<^verbatim>\<open>float\<close> is modelled by the real number it stands for. What double
  precision does to the control flow is modelled: a quotient of two ints, or an int,
  that is too large for a double raises \<open>OverflowError\<close>. What it does to the values is
  not: a value of the model is the exact number that the double of the script
  approximates. Each operation of the script rounds with a relative error of at most
  \<open>1 / 2 ^ 53\<close>, and the subtraction \<^verbatim>\<open>1 - p_pooled\<close> magnifies the error of the pooled
  rate by \<open>1 / (1 - p_pooled)\<close>, which is at most the total number of visitors. With up
  to \<open>2 ^ 20\<close> visitors in each arm the standard error of the script is within a relative
  \<open>1 / 10 ^ 10\<close> of the exact one. With more than about \<open>2 ^ 53\<close> visitors the rounding
  changes the outcome itself: a pooled rate just below \<open>1\<close> becomes \<open>1.0\<close>, the
  standard error \<open>0.0\<close> and the z-statistic NaN; and a quotient of magnitude \<open>1 / 2 ^ 1075\<close>
  or less becomes \<open>0.0\<close>. The statements below about the values of the statistics are
  therefore made for at most \<open>2 ^ 20\<close> visitors in each arm, except where the values
  of the script are exact at any size (\<open>0\<close>, \<open>1\<close> and NaN).
\<close>

text \<open>
  The exceptions of the model. \<open>ZeroDivisionError\<close> and \<open>OverflowError\<close> are raised by
  Python's division, \<open>ValueError\<close> by \<^verbatim>\<open>np.argmin\<close> and \<open>IndexError\<close> by indexing.
  \<open>InvalidInputError\<close> is the exception that the specification names; no statement of
  the script raises it.
\<close>

datatype py_error =
  ZeroDivisionError | OverflowError | ValueError | IndexError | InvalidInputError

datatype np_float = Fin real | PInf | NInf | NaN

text \<open>Sequencing of statements that may raise: the first exception ends the run.\<close>

definition py_bind :: "py_error + 'a \<Rightarrow> ('a \<Rightarrow> py_error + 'b) \<Rightarrow> py_error + 'b" where
  "py_bind m f = (case m of Inl e \<Rightarrow> Inl e | Inr x \<Rightarrow> f x)"

text \<open>
  The largest double is \<open>2 ^ 1024 - 2 ^ 971\<close>. Rounding is to the nearest double, ties to
  even, so a number of magnitude \<open>2 ^ 1024 - 2 ^ 970\<close> or more, half a unit in the last
  place above the largest double, has no double.
\<close>

definition float_overflow :: "real \<Rightarrow> bool" where
  "float_overflow x \<longleftrightarrow> 2 ^ 1024 - 2 ^ 970 \<le> \<bar>x\<bar>"

text \<open>
  Python's \<^verbatim>\<open>/\<close> on two ints (lines 22, 23, 26 and 29). It raises \<open>ZeroDivisionError\<close>
  when the divisor is zero; otherwise it rounds the exact quotient, however large the
  operands are, and raises \<open>OverflowError\<close> when the quotient is too large for a double.
\<close>

definition int_truediv :: "int \<Rightarrow> int \<Rightarrow> py_error + real" where
  "int_truediv a b =
     (if b = 0 then Inl ZeroDivisionError
      else if float_overflow (of_int a / of_int b) then Inl OverflowError
      else Inr (of_int a / of_int b))"

text \<open>
  Python's \<^verbatim>\<open>/\<close> on two floats (lines 43 and 350). It raises when the divisor is zero,
  and nothing else: a quotient too large for a double is \<^verbatim>\<open>inf\<close>.
\<close>

definition py_truediv :: "real \<Rightarrow> real \<Rightarrow> py_error + real" where
  "py_truediv a b = (if b = 0 then Inl ZeroDivisionError else Inr (a / b))"

text \<open>
  Python's \<^verbatim>\<open>/\<close> on a float and an int (lines 60 and 61). The int is converted to a
  float first, which raises \<open>OverflowError\<close> when it is too large for a double; then the
  two floats are divided.
\<close>

definition float_of_int :: "int \<Rightarrow> py_error + real" where
  "float_of_int n = (if float_overflow (of_int n) then Inl OverflowError else Inr (of_int n))"

definition float_int_truediv :: "real \<Rightarrow> int \<Rightarrow> py_error + real" where
  "float_int_truediv a n = py_bind (float_of_int n) (\<lambda>b. py_truediv a b)"

text \<open>
  NumPy's operations on scalars. A Python float on the left of a NumPy scalar is handled
  by NumPy as well (\<^verbatim>\<open>np.float64\<close> is a subclass of \<^verbatim>\<open>float\<close> and its reflected
  operation is tried first), so \<^verbatim>\<open>x / se\<close> with \<^verbatim>\<open>se = np.sqrt(...)\<close> never raises.
\<close>

fun np_sqrt :: "np_float \<Rightarrow> np_float" where
  "np_sqrt (Fin x) = (if x < 0 then NaN else Fin (sqrt x))"
| "np_sqrt PInf = PInf"
| "np_sqrt NInf = NaN"
| "np_sqrt NaN = NaN"

fun np_truediv :: "np_float \<Rightarrow> np_float \<Rightarrow> np_float" where
  "np_truediv (Fin a) (Fin b) =
     (if b \<noteq> 0 then Fin (a / b)
      else if a = 0 then NaN else if 0 < a then PInf else NInf)"
| "np_truediv (Fin a) PInf = Fin 0"
| "np_truediv (Fin a) NInf = Fin 0"
| "np_truediv PInf (Fin b) = (if 0 \<le> b then PInf else NInf)"
| "np_truediv NInf (Fin b) = (if 0 \<le> b then NInf else PInf)"
| "np_truediv PInf PInf = NaN"
| "np_truediv PInf NInf = NaN"
| "np_truediv NInf PInf = NaN"
| "np_truediv NInf NInf = NaN"
| "np_truediv NaN y = NaN"
| "np_truediv x NaN = NaN"

fun np_neg :: "np_float \<Rightarrow> np_float" where
  "np_neg (Fin a) = Fin (- a)"
| "np_neg PInf = NInf"
| "np_neg NInf = PInf"
| "np_neg NaN = NaN"

fun np_add :: "np_float \<Rightarrow> np_float \<Rightarrow> np_float" where
  "np_add (Fin a) (Fin b) = Fin (a + b)"
| "np_add (Fin a) PInf = PInf"
| "np_add (Fin a) NInf = NInf"
| "np_add PInf (Fin b) = PInf"
| "np_add NInf (Fin b) = NInf"
| "np_add PInf PInf = PInf"
| "np_add NInf NInf = NInf"
| "np_add PInf NInf = NaN"
| "np_add NInf PInf = NaN"
| "np_add NaN y = NaN"
| "np_add x NaN = NaN"

definition np_sub :: "np_float \<Rightarrow> np_float \<Rightarrow> np_float" where
  "np_sub x y = np_add x (np_neg y)"

fun np_mul :: "np_float \<Rightarrow> np_float \<Rightarrow> np_float" where
  "np_mul (Fin a) (Fin b) = Fin (a * b)"
| "np_mul (Fin a) PInf = (if a = 0 then NaN else if 0 < a then PInf else NInf)"
| "np_mul (Fin a) NInf = (if a = 0 then NaN else if 0 < a then NInf else PInf)"
| "np_mul PInf (Fin b) = (if b = 0 then NaN else if 0 < b then PInf else NInf)"
| "np_mul NInf (Fin b) = (if b = 0 then NaN else if 0 < b then NInf else PInf)"
| "np_mul PInf PInf = PInf"
| "np_mul NInf NInf = PInf"
| "np_mul PInf NInf = NInf"
| "np_mul NInf PInf = NInf"
| "np_mul NaN y = NaN"
| "np_mul x NaN = NaN"

fun np_abs :: "np_float \<Rightarrow> np_float" where
  "np_abs (Fin a) = Fin \<bar>a\<bar>"
| "np_abs PInf = PInf"
| "np_abs NInf = PInf"
| "np_abs NaN = NaN"

text \<open>Comparisons: every comparison with NaN is false.\<close>

fun np_lt :: "np_float \<Rightarrow> np_float \<Rightarrow> bool" where
  "np_lt (Fin a) (Fin b) = (a < b)"
| "np_lt (Fin a) PInf = True"
| "np_lt NInf (Fin b) = True"
| "np_lt NInf PInf = True"
| "np_lt NaN y = False"
| "np_lt x NaN = False"
| "np_lt PInf y = False"
| "np_lt x NInf = False"

definition np_ge :: "np_float \<Rightarrow> np_float \<Rightarrow> bool" where
  "np_ge x y = (x \<noteq> NaN \<and> y \<noteq> NaN \<and> \<not> np_lt x y)"

fun np_isnan :: "np_float \<Rightarrow> bool" where
  "np_isnan NaN = True"
| "np_isnan x = False"

section \<open>The standard normal distribution function\<close>

text \<open>
  \<^verbatim>\<open>stats.norm.cdf\<close> is SciPy's distribution function of the standard normal law. It is
  modelled by the Maclaurin series of that function,
  \<open>1/2 + (\<Sum>n. (-1)^n x^(2n+1) / (2^n n! (2n+1))) / sqrt (2 pi)\<close>.
\<close>

definition cdf_term :: "real \<Rightarrow> nat \<Rightarrow> real" where
  "cdf_term x n = x ^ (2 * n + 1) / (2 ^ n * fact n * real (2 * n + 1))"

definition std_normal_cdf :: "real \<Rightarrow> real" where
  "std_normal_cdf x = 1 / 2 + (\<Sum>n. (- 1) ^ n * cdf_term x n) / sqrt (2 * pi)"

text \<open>
  Two auxiliary functions for reasoning about the series: with \<open>y = x\<^sup>2\<close> it is
  \<open>x\<close> times a power series in \<open>y\<close>.
\<close>

definition cdf_coeff :: "nat \<Rightarrow> real" where
  "cdf_coeff n = (- 1 / 2) ^ n / (fact n * real (2 * n + 1))"

definition cdf_series :: "real \<Rightarrow> real" where
  "cdf_series y = (\<Sum>n. cdf_coeff n * y ^ n)"

definition cdf_integral :: "real \<Rightarrow> real" where
  "cdf_integral x = x * cdf_series (x\<^sup>2)"

fun norm_cdf :: "np_float \<Rightarrow> np_float" where
  "norm_cdf (Fin x) = Fin (std_normal_cdf x)"
| "norm_cdf PInf = Fin 1"
| "norm_cdf NInf = Fin 0"
| "norm_cdf NaN = NaN"

section \<open>The test statistics (lines 16 to 35 and 47 of the script)\<close>

record test_result =
  p_control :: real
  p_variant :: real
  p_pooled :: real
  se :: np_float
  z_stat :: np_float
  p_value :: np_float
  significant :: bool

text \<open>
  The script computes the statistics at top level from four literal integers. Here they
  are the arguments, in the order of lines 16 to 19, and the statements are taken in
  the order of the script, so that the first division that raises ends the computation.
  The five divisions of ints are Python's. The products, the sum and the difference of
  lines 29 and 32 are operations on floats, which do not raise, and the rest is NumPy's.
\<close>

definition compute_test_result :: "int \<Rightarrow> int \<Rightarrow> int \<Rightarrow> int \<Rightarrow> py_error + test_result" where
  "compute_test_result control_visitors control_conversions variant_visitors variant_conversions =
     py_bind (int_truediv control_conversions control_visitors) (\<lambda>pc.
     py_bind (int_truediv variant_conversions variant_visitors) (\<lambda>pv.
     py_bind (int_truediv (control_conversions + variant_conversions)
                          (control_visitors + variant_visitors)) (\<lambda>pp.
     py_bind (int_truediv 1 control_visitors) (\<lambda>ic.
     py_bind (int_truediv 1 variant_visitors) (\<lambda>iv.
       let s = np_sqrt (Fin (pp * (1 - pp) * (ic + iv)));
           z = np_truediv (Fin (pv - pc)) s;
           p = np_mul (Fin 2) (np_sub (Fin 1) (norm_cdf (np_abs z)))
       in Inr \<lparr>p_control = pc, p_variant = pv, p_pooled = pp, se = s, z_stat = z,
               p_value = p, significant = np_lt p (Fin 0.05)\<rparr>)))))"

text \<open>The inputs that the specification calls valid.\<close>

definition valid_variant :: "int \<Rightarrow> int \<Rightarrow> bool" where
  "valid_variant visitors conversions \<longleftrightarrow> 0 < visitors \<and> 0 \<le> conversions \<and> conversions \<le> visitors"

definition valid_inputs :: "int \<Rightarrow> int \<Rightarrow> int \<Rightarrow> int \<Rightarrow> bool" where
  "valid_inputs cv cc vv vc \<longleftrightarrow> valid_variant cv cc \<and> valid_variant vv vc"

text \<open>
  The visitor counts for which the statements about the values of the statistics are
  made: at most \<open>2 ^ 20\<close> in each arm, where the doubles of the script follow the exact
  values closely (see the first section).
\<close>

definition moderate_size :: "int \<Rightarrow> int \<Rightarrow> bool" where
  "moderate_size control_visitors variant_visitors \<longleftrightarrow>
     control_visitors \<le> 2 ^ 20 \<and> variant_visitors \<le> 2 ^ 20"

text \<open>
  Agreement of a computed value with a decimal \<open>v\<close> up to \<open>tol\<close>; a value that is
  not a number agrees with nothing.
\<close>

fun agrees :: "np_float \<Rightarrow> real \<Rightarrow> real \<Rightarrow> bool" where
  "agrees (Fin r) v tol = (\<bar>r - v\<bar> \<le> tol)"
| "agrees PInf v tol = False"
| "agrees NInf v tol = False"
| "agrees NaN v tol = False"

section \<open>Confidence intervals (lines 144 to 155)\<close>

text \<open>
  \<^verbatim>\<open>ci_control = 1.96 * np.sqrt(p_control * (1 - p_control) / control_visitors)\<close>, and
  the same for the variant. The division is Python's, of a float by an int that lines
  60 and 61 have already converted to a float.
\<close>

definition ci_margin :: "real \<Rightarrow> int \<Rightarrow> py_error + np_float" where
  "ci_margin p visitors =
     py_bind (py_truediv (p * (1 - p)) (of_int visitors)) (\<lambda>q.
       Inr (np_mul (Fin 1.96) (np_sqrt (Fin q))))"

text \<open>
  The interval itself is drawn by \<^verbatim>\<open>plt.errorbar(categories, [r * 100 for r in rates],
  yerr=[e * 100 for e in errors])\<close>: a bar from \<open>y - yerr\<close> to \<open>y + yerr\<close>, in percent.
\<close>

definition errorbar :: "np_float \<Rightarrow> np_float \<Rightarrow> np_float \<times> np_float" where
  "errorbar y yerr = (np_sub y yerr, np_add y yerr)"

definition confidence_interval :: "real \<Rightarrow> int \<Rightarrow> py_error + np_float \<times> np_float" where
  "confidence_interval p visitors =
     py_bind (ci_margin p visitors) (\<lambda>e.
       Inr (errorbar (Fin (p * 100)) (np_mul e (Fin 100))))"

section \<open>The power curve (lines 218 to 238)\<close>

text \<open>\<^verbatim>\<open>np.linspace(start, stop, num)\<close>: \<open>num\<close> evenly spaced points, both ends included.\<close>

definition linspace :: "real \<Rightarrow> real \<Rightarrow> nat \<Rightarrow> real list" where
  "linspace start stop num =
     map (\<lambda>i. start + real i * ((stop - start) / real (num - 1))) [0..<num]"

definition sample_sizes :: "real list" where
  "sample_sizes = linspace 1000 50000 100"

text \<open>The body of the loop at lines 221 to 228, for one sample size \<open>n\<close>.\<close>

definition se_n :: "real \<Rightarrow> real \<Rightarrow> np_float" where
  "se_n pooled n = np_sqrt (np_mul (Fin (pooled * (1 - pooled))) (np_truediv (Fin 2) (Fin n)))"

definition ncp :: "real \<Rightarrow> real \<Rightarrow> real \<Rightarrow> np_float" where
  "ncp pooled diff_observed n = np_truediv (Fin diff_observed) (se_n pooled n)"

definition power_n :: "real \<Rightarrow> real \<Rightarrow> real \<Rightarrow> np_float" where
  "power_n pooled diff_observed n =
     np_sub (Fin 1) (norm_cdf (np_sub (Fin 1.96) (ncp pooled diff_observed n)))"

definition powers :: "real \<Rightarrow> real \<Rightarrow> np_float list" where
  "powers pooled diff_observed = map (power_n pooled diff_observed) sample_sizes"

text \<open>
  \<^verbatim>\<open>np.argmin\<close>: the first index of the least element; a NaN counts as least, and the
  scan stops at the first one. An empty sequence raises \<open>ValueError\<close>.
  \<open>argmin_from mp ind i xs\<close> is the scan with the least value \<open>mp\<close> so far, found at
  index \<open>ind\<close>, and \<open>xs\<close> the elements from index \<open>i\<close> on.
\<close>

fun argmin_from :: "np_float \<Rightarrow> nat \<Rightarrow> nat \<Rightarrow> np_float list \<Rightarrow> nat" where
  "argmin_from mp ind i [] = ind"
| "argmin_from mp ind i (x # xs) =
     (if np_ge x mp then argmin_from mp ind (Suc i) xs
      else if np_isnan x then i
      else argmin_from x i (Suc i) xs)"

fun np_argmin :: "np_float list \<Rightarrow> py_error + nat" where
  "np_argmin [] = Inl ValueError"
| "np_argmin (x # xs) = Inr (if np_isnan x then 0 else argmin_from x 0 1 xs)"

definition getitem :: "'a list \<Rightarrow> nat \<Rightarrow> py_error + 'a" where
  "getitem xs i = (if i < length xs then Inr (xs ! i) else Inl IndexError)"

text \<open>
  \<^verbatim>\<open>power_80_idx = np.argmin(np.abs(np.array(powers) - 0.8))\<close> and
  \<^verbatim>\<open>sample_for_80 = sample_sizes[power_80_idx]\<close>.
\<close>

definition power_80_idx :: "real \<Rightarrow> real \<Rightarrow> py_error + nat" where
  "power_80_idx pooled diff_observed =
     np_argmin (map (\<lambda>p. np_abs (np_sub p (Fin 0.8))) (powers pooled diff_observed))"

definition sample_for_80 :: "real \<Rightarrow> real \<Rightarrow> py_error + real" where
  "sample_for_80 pooled diff_observed =
     py_bind (power_80_idx pooled diff_observed) (getitem sample_sizes)"

section \<open>The whole script\<close>

text \<open>
  What a run leaves behind: the lines printed and the image files saved, in order. A
  printed line is recorded by the values it shows, not by its text.
\<close>

datatype event =
    Rule
  | Title
  | Control_rate real
  | Variant_rate real
  | Absolute_diff real
  | Relative_lift real
  | Standard_error np_float
  | Z_statistic np_float
  | P_value np_float
  | Significant bool
  | Savefig string
  | Saved_note string
  | Complete_note

text \<open>Lines 37 to 42: printed before the relative lift is computed.\<close>

definition summary_head :: "test_result \<Rightarrow> event list" where
  "summary_head r =
     [Rule, Title, Rule, Control_rate (p_control r), Variant_rate (p_variant r),
      Absolute_diff (p_variant r - p_control r)]"

text \<open>
  \<^verbatim>\<open>(p_variant - p_control) / p_control * 100\<close>, at lines 43 and 350: a division of
  two Python floats.
\<close>

definition relative_lift :: "test_result \<Rightarrow> py_error + real" where
  "relative_lift r =
     py_bind (py_truediv (p_variant r - p_control r) (p_control r)) (\<lambda>q. Inr (q * 100))"

text \<open>Lines 43 to 48.\<close>

definition summary_tail :: "test_result \<Rightarrow> real \<Rightarrow> event list" where
  "summary_tail r lift =
     [Relative_lift lift, Standard_error (se r), Z_statistic (z_stat r), P_value (p_value r),
      Significant (significant r), Rule]"

text \<open>
  Lines 51 to 258: the first figure. The calls into the plotting library are taken not
  to fail; the values computed for the charts are evaluated, since they may raise:
  the variances of the two rates at lines 60 and 61, the confidence intervals at lines
  144 and 145, and the sample size at lines 218 to 238.
\<close>

definition figure_1 :: "int \<Rightarrow> int \<Rightarrow> test_result \<Rightarrow> py_error + event list" where
  "figure_1 control_visitors variant_visitors r =
     py_bind (float_int_truediv (p_control r * (1 - p_control r)) control_visitors) (\<lambda>_.
     py_bind (float_int_truediv (p_variant r * (1 - p_variant r)) variant_visitors) (\<lambda>_.
     py_bind (confidence_interval (p_control r) control_visitors) (\<lambda>_.
     py_bind (confidence_interval (p_variant r) variant_visitors) (\<lambda>_.
     py_bind (sample_for_80 (p_pooled r) (p_variant r - p_control r)) (\<lambda>_.
       Inr [Savefig ''ab_test_statistical_breakdown.png'',
            Saved_note ''ab_test_statistical_breakdown.png''])))))"

text \<open>Lines 263 to 372: the second figure, whose text repeats the relative lift.\<close>

definition figure_2 :: "test_result \<Rightarrow> py_error + event list" where
  "figure_2 r =
     py_bind (relative_lift r) (\<lambda>_.
       Inr [Savefig ''ab_test_explained.png'', Saved_note ''ab_test_explained.png'',
            Complete_note])"

text \<open>A run: the output so far, and the exception that ended it, if any.\<close>

definition run :: "int \<Rightarrow> int \<Rightarrow> int \<Rightarrow> int \<Rightarrow> event list \<times> py_error option" where
  "run control_visitors control_conversions variant_visitors variant_conversions =
     (case compute_test_result control_visitors control_conversions
             variant_visitors variant_conversions of
        Inl e \<Rightarrow> ([], Some e)
      | Inr r \<Rightarrow>
          (case relative_lift r of
             Inl e \<Rightarrow> (summary_head r, Some e)
           | Inr lift \<Rightarrow>
               (case figure_1 control_visitors variant_visitors r of
                  Inl e \<Rightarrow> (summary_head r @ summary_tail r lift, Some e)
                | Inr f1 \<Rightarrow>
                    (case figure_2 r of
                       Inl e \<Rightarrow> (summary_head r @ summary_tail r lift @ f1, Some e)
                     | Inr f2 \<Rightarrow> (summary_head r @ summary_tail r lift @ f1 @ f2, None)))))"

section \<open>Basic facts about the model\<close>

lemma valid_inputs_nonzero:
  assumes "valid_inputs cv cc vv vc"
  shows "cv \<noteq> 0" "vv \<noteq> 0" "cv + vv \<noteq> 0"
  using assms by (auto simp: valid_inputs_def valid_variant_def)

lemma py_truediv_Inr: "b \<noteq> 0 \<Longrightarrow> py_truediv a b = Inr (a / b)"
  by (simp add: py_truediv_def)

lemma py_bind_Inr: "py_bind (Inr x) f = f x"
  by (simp add: py_bind_def)

lemma py_bind_Inl: "py_bind (Inl e) f = Inl e"
  by (simp add: py_bind_def)

lemma py_bind_if: "py_bind (if c then Inl e else m) f = (if c then Inl e else py_bind m f)"
  by (simp add: py_bind_def)

text \<open>
  A quotient of magnitude at most \<open>2\<close> is far from the overflow threshold. This covers
  every rate of a valid input, and every conversion count up to one above its visitor
  count.
\<close>

lemma float_overflow_threshold: "(2::real) ^ 20 < 2 ^ 1024 - 2 ^ 970"
proof -
  have e: "(2::real) ^ 1024 = 2 ^ 970 * 2 ^ 54"
    by (simp flip: power_add)
  have d: "(2::real) ^ 970 * 2 ^ 54 - 2 ^ 970 = 2 ^ 970 * (2 ^ 54 - 1)"
    by (simp only: right_diff_distrib mult_1_right)
  have "(1::real) \<le> 2 ^ 970"
    by (rule one_le_power) simp
  then have "(1::real) * (2 ^ 54 - 1) \<le> 2 ^ 970 * (2 ^ 54 - 1)"
    by (rule mult_right_mono) simp
  moreover have "(2::real) ^ 20 < 1 * (2 ^ 54 - 1)"
    by simp
  ultimately show ?thesis
    unfolding e d by (rule less_le_trans [rotated])
qed

lemma not_float_overflow: "\<bar>x\<bar> \<le> 2 \<Longrightarrow> \<not> float_overflow x"
proof -
  assume "\<bar>x\<bar> \<le> 2"
  moreover have "(2::real) \<le> 2 ^ 20"
    by simp
  ultimately show ?thesis
    unfolding float_overflow_def using float_overflow_threshold by linarith
qed

lemma not_float_overflow_moderate: "\<bar>x\<bar> \<le> 2 ^ 20 \<Longrightarrow> \<not> float_overflow x"
  unfolding float_overflow_def using float_overflow_threshold by linarith

lemma float_overflow_power: "float_overflow (2 ^ 1024)"
proof -
  have "(0::real) \<le> 2 ^ 970" "(0::real) \<le> 2 ^ 1024"
    by (rule zero_le_power, simp)+
  then show ?thesis
    unfolding float_overflow_def by linarith
qed

lemma quotient_bound:
  fixes a b :: int
  assumes "\<bar>a\<bar> \<le> 2 * \<bar>b\<bar>"
  shows "\<bar>real_of_int a / real_of_int b\<bar> \<le> 2"
proof (cases "b = 0")
  case True
  then show ?thesis by simp
next
  case False
  then have b: "0 < \<bar>real_of_int b\<bar>"
    by simp
  have "real_of_int \<bar>a\<bar> \<le> real_of_int (2 * \<bar>b\<bar>)"
    using assms by (rule iffD2 [OF of_int_le_iff])
  then have "\<bar>real_of_int a\<bar> \<le> 2 * \<bar>real_of_int b\<bar>"
    by simp
  then have "\<bar>real_of_int a\<bar> / \<bar>real_of_int b\<bar> \<le> 2"
    by (simp only: pos_divide_le_eq [OF b])
  then show ?thesis
    by (simp only: abs_divide)
qed

lemma int_truediv_Inr:
  assumes "b \<noteq> 0" and "\<bar>a\<bar> \<le> 2 * \<bar>b\<bar>"
  shows "int_truediv a b = Inr (of_int a / of_int b)"
  using assms(1) not_float_overflow [OF quotient_bound [OF assms(2)]]
  by (simp add: int_truediv_def)

lemma int_truediv_one:
  "int_truediv 1 n = (if n = 0 then Inl ZeroDivisionError else Inr (1 / of_int n))"
proof (cases "n = 0")
  case True
  then show ?thesis by (simp add: int_truediv_def)
next
  case False
  then have "\<bar>1::int\<bar> \<le> 2 * \<bar>n\<bar>"
    by simp
  from int_truediv_Inr [OF False this] False show ?thesis
    by simp
qed

text \<open>
  The computation in one piece: the first of the three divisions of lines 22, 23 and 26
  that raises ends it; the two divisions of line 29 have the divisors of lines 22 and
  23 and quotients of magnitude at most \<open>1\<close>, so they raise nothing after these.
\<close>

lemma compute_test_result_cases:
  "compute_test_result cv cc vv vc =
     (if cv = 0 then Inl ZeroDivisionError
      else if float_overflow (of_int cc / of_int cv) then Inl OverflowError
      else if vv = 0 then Inl ZeroDivisionError
      else if float_overflow (of_int vc / of_int vv) then Inl OverflowError
      else if cv + vv = 0 then Inl ZeroDivisionError
      else if float_overflow (of_int (cc + vc) / of_int (cv + vv)) then Inl OverflowError
      else
        (let pc = of_int cc / of_int cv; pv = of_int vc / of_int vv;
             pp = of_int (cc + vc) / of_int (cv + vv);
             s = np_sqrt (Fin (pp * (1 - pp) * (1 / of_int cv + 1 / of_int vv)));
             z = np_truediv (Fin (pv - pc)) s;
             p = np_mul (Fin 2) (np_sub (Fin 1) (norm_cdf (np_abs z)))
         in Inr \<lparr>p_control = pc, p_variant = pv, p_pooled = pp, se = s, z_stat = z,
                 p_value = p, significant = np_lt p (Fin 0.05)\<rparr>))"
  unfolding compute_test_result_def int_truediv_one
  by (simp only: int_truediv_def py_bind_if py_bind_Inr py_bind_Inl Let_def if_False
        cong: if_cong)

lemma compute_test_result_Inr:
  assumes "cv \<noteq> 0" "vv \<noteq> 0" "cv + vv \<noteq> 0"
    and "\<bar>cc\<bar> \<le> 2 * \<bar>cv\<bar>" "\<bar>vc\<bar> \<le> 2 * \<bar>vv\<bar>" "\<bar>cc + vc\<bar> \<le> 2 * \<bar>cv + vv\<bar>"
  shows "compute_test_result cv cc vv vc =
     (let pc = of_int cc / of_int cv; pv = of_int vc / of_int vv;
          pp = of_int (cc + vc) / of_int (cv + vv);
          s = np_sqrt (Fin (pp * (1 - pp) * (1 / of_int cv + 1 / of_int vv)));
          z = np_truediv (Fin (pv - pc)) s;
          p = np_mul (Fin 2) (np_sub (Fin 1) (norm_cdf (np_abs z)))
      in Inr \<lparr>p_control = pc, p_variant = pv, p_pooled = pp, se = s, z_stat = z,
              p_value = p, significant = np_lt p (Fin 0.05)\<rparr>)"
proof -
  note q = not_float_overflow [OF quotient_bound [OF assms(4)]]
    not_float_overflow [OF quotient_bound [OF assms(5)]]
    not_float_overflow [OF quotient_bound [OF assms(6)]]
  show ?thesis
    unfolding compute_test_result_cases using assms(1-3) q by (simp only: if_False)
qed

lemma compute_test_result_valid:
  assumes "valid_inputs cv cc vv vc"
  shows "compute_test_result cv cc vv vc =
     (let pc = of_int cc / of_int cv; pv = of_int vc / of_int vv;
          pp = of_int (cc + vc) / of_int (cv + vv);
          s = np_sqrt (Fin (pp * (1 - pp) * (1 / of_int cv + 1 / of_int vv)));
          z = np_truediv (Fin (pv - pc)) s;
          p = np_mul (Fin 2) (np_sub (Fin 1) (norm_cdf (np_abs z)))
      in Inr \<lparr>p_control = pc, p_variant = pv, p_pooled = pp, se = s, z_stat = z,
              p_value = p, significant = np_lt p (Fin 0.05)\<rparr>)"
proof -
  have "\<bar>cc\<bar> \<le> 2 * \<bar>cv\<bar>" "\<bar>vc\<bar> \<le> 2 * \<bar>vv\<bar>" "\<bar>cc + vc\<bar> \<le> 2 * \<bar>cv + vv\<bar>"
    using assms by (auto simp: valid_inputs_def valid_variant_def)
  then show ?thesis
    by (rule compute_test_result_Inr [OF valid_inputs_nonzero [OF assms]])
qed

text \<open>For evaluating the computation on literal inputs.\<close>

lemmas compute_defs = compute_test_result_cases not_float_overflow Let_def np_sub_def

section \<open>Properties of the distribution function\<close>

text \<open>
  The series converges everywhere, and the function it defines has the density of the
  standard normal law as its derivative and the value \<open>1/2\<close> at \<open>0\<close>: it is the
  distribution function of that law. It is therefore increasing.
\<close>

lemma cdf_coeff_summable: "summable (\<lambda>n. cdf_coeff n * y ^ n)"
proof (rule summable_comparison_test)
  show "summable (\<lambda>n. inverse (fact n) * \<bar>y / 2\<bar> ^ n)"
    by (rule summable_exp)
  show "\<exists>N. \<forall>n\<ge>N. norm (cdf_coeff n * y ^ n) \<le> inverse (fact n) * \<bar>y / 2\<bar> ^ n"
  proof (intro exI allI impI)
    fix n :: nat
    have "norm (cdf_coeff n * y ^ n) = (inverse (fact n) * \<bar>y / 2\<bar> ^ n) / real (2 * n + 1)"
      by (simp add: cdf_coeff_def power_divide abs_mult power_abs divide_simps)
    also have "\<dots> \<le> inverse (fact n) * \<bar>y / 2\<bar> ^ n"
    proof -
      have "inverse (fact n) * \<bar>y / 2\<bar> ^ n * 1 \<le> inverse (fact n) * \<bar>y / 2\<bar> ^ n * real (2 * n + 1)"
        by (rule mult_left_mono) simp_all
      then show ?thesis by (simp add: divide_le_eq)
    qed
    finally show "norm (cdf_coeff n * y ^ n) \<le> inverse (fact n) * \<bar>y / 2\<bar> ^ n" .
  qed
qed

lemma cdf_series_deriv:
  "(cdf_series has_field_derivative (\<Sum>n. diffs cdf_coeff n * y ^ n)) (at y)"
  unfolding cdf_series_def
  by (rule termdiffs_strong_converges_everywhere) (rule cdf_coeff_summable)

lemma cdf_series_ode:
  "cdf_series y + 2 * y * (\<Sum>n. diffs cdf_coeff n * y ^ n) = exp (- y / 2)"
proof -
  have sd: "summable (\<lambda>n. diffs cdf_coeff n * y ^ n)"
    by (rule termdiff_converges_all) (rule cdf_coeff_summable)
  have s1: "(\<lambda>n. of_nat n * cdf_coeff n * y ^ (n - Suc 0)) sums (\<Sum>n. diffs cdf_coeff n * y ^ n)"
    by (rule diffs_equiv [OF sd])
  have s2: "(\<lambda>n. 2 * y * (of_nat n * cdf_coeff n * y ^ (n - Suc 0))) sums (2 * y * (\<Sum>n. diffs cdf_coeff n * y ^ n))"
    by (rule sums_mult [OF s1])
  have s3: "(\<lambda>n. cdf_coeff n * y ^ n) sums cdf_series y"
    unfolding cdf_series_def by (rule summable_sums [OF cdf_coeff_summable])
  have s4: "(\<lambda>n. cdf_coeff n * y ^ n + 2 * y * (of_nat n * cdf_coeff n * y ^ (n - Suc 0)))
              sums (cdf_series y + 2 * y * (\<Sum>n. diffs cdf_coeff n * y ^ n))"
    by (rule sums_add [OF s3 s2])
  have eq: "cdf_coeff n * y ^ n + 2 * y * (of_nat n * cdf_coeff n * y ^ (n - Suc 0))
              = (- y / 2) ^ n /\<^sub>R fact n" for n
  proof (cases n)
    case 0
    then show ?thesis by (simp add: cdf_coeff_def)
  next
    case (Suc m)
    have "cdf_coeff n * y ^ n + 2 * y * (of_nat n * cdf_coeff n * y ^ (n - Suc 0))
            = cdf_coeff n * y ^ n * real (2 * n + 1)"
      by (simp add: Suc algebra_simps)
    also have "\<dots> = (- y / 2) ^ n /\<^sub>R fact n"
      by (simp add: cdf_coeff_def power_divide power_minus' divide_simps del: of_nat_Suc of_nat_add)
    finally show ?thesis .
  qed
  have "(\<lambda>n. (- y / 2) ^ n /\<^sub>R fact n) sums (cdf_series y + 2 * y * (\<Sum>n. diffs cdf_coeff n * y ^ n))"
    using s4 by (simp only: eq)
  moreover have "(\<lambda>n. (- y / 2) ^ n /\<^sub>R fact n) sums exp (- y / 2)"
    by (rule exp_converges)
  ultimately show ?thesis by (rule sums_unique2)
qed


lemma cdf_integral_deriv:
  "(cdf_integral has_field_derivative exp (- x\<^sup>2 / 2)) (at x)"
proof -
  let ?d = "\<Sum>n. diffs cdf_coeff n * (x\<^sup>2) ^ n"
  have "((\<lambda>x. x * cdf_series (x\<^sup>2)) has_field_derivative
          (1 * cdf_series (x\<^sup>2) + x * (?d * (2 * x)))) (at x)"
    by (rule derivative_eq_intros DERIV_chain2 [OF cdf_series_deriv] refl | simp)+
  moreover have "1 * cdf_series (x\<^sup>2) + x * (?d * (2 * x)) = exp (- x\<^sup>2 / 2)"
    using cdf_series_ode [of "x\<^sup>2"] by (simp add: power2_eq_square algebra_simps)
  ultimately show ?thesis
    unfolding cdf_integral_def [abs_def] by simp
qed

lemma cdf_term_sum: "(\<Sum>n. (- 1) ^ n * cdf_term x n) = cdf_integral x"
proof -
  have "(- 1) ^ n * cdf_term x n = x * (cdf_coeff n * (x\<^sup>2) ^ n)" for n
  proof -
    have "x ^ (2 * n + 1) = x * (x\<^sup>2) ^ n"
      by (simp add: power_mult [symmetric])
    then show ?thesis
      by (simp add: cdf_term_def cdf_coeff_def power_divide power_minus' mult_ac)
  qed
  then show ?thesis
    by (simp add: cdf_integral_def cdf_series_def suminf_mult [OF cdf_coeff_summable])
qed

lemma std_normal_cdf_deriv:
  "(std_normal_cdf has_field_derivative exp (- x\<^sup>2 / 2) / sqrt (2 * pi)) (at x)"
proof -
  have "((\<lambda>x. cdf_integral x / sqrt (2 * pi)) has_field_derivative
          exp (- x\<^sup>2 / 2) / sqrt (2 * pi)) (at x)"
    by (rule DERIV_cdivide [OF cdf_integral_deriv])
  then have "((\<lambda>x. 1 / 2 + cdf_integral x / sqrt (2 * pi)) has_field_derivative
          0 + exp (- x\<^sup>2 / 2) / sqrt (2 * pi)) (at x)"
    by (rule DERIV_add [OF DERIV_const])
  then show ?thesis
    by (simp add: std_normal_cdf_def [abs_def] cdf_term_sum)
qed

lemma std_normal_cdf_mono:
  assumes "x \<le> y"
  shows "std_normal_cdf x \<le> std_normal_cdf y"
proof (rule DERIV_nonneg_imp_nondecreasing [OF assms])
  fix t :: real
  have "0 \<le> exp (- t\<^sup>2 / 2) / sqrt (2 * pi)" by simp
  then show "\<exists>d. (std_normal_cdf has_real_derivative d) (at t) \<and> 0 \<le> d"
    using std_normal_cdf_deriv [of t] by blast
qed

lemma std_normal_cdf_0: "std_normal_cdf 0 = 1 / 2"
  by (simp add: std_normal_cdf_def cdf_term_def)


lemma cdf_term_nonneg: "0 \<le> x \<Longrightarrow> 0 \<le> cdf_term x n"
  by (simp add: cdf_term_def)

lemma cdf_term_Suc:
  "cdf_term x (Suc n) = cdf_term x n * (x\<^sup>2 * real (2 * n + 1) / (2 * real (n + 1) * real (2 * n + 3)))"
proof -
  define a b c where "a = real (2 * n + 1)" and "b = real (n + 1)" and "c = real (2 * n + 3)"
  have pos: "0 < a" "0 < b" "0 < c"
    by (simp_all add: a_def b_def c_def)
  have f: "fact (Suc n) = b * fact n"
    by (simp add: b_def)
  have p: "x ^ (2 * Suc n + 1) = x\<^sup>2 * x ^ (2 * n + 1)"
    by (simp add: power2_eq_square)
  have c: "real (2 * Suc n + 1) = c"
    by (simp add: c_def)
  have "cdf_term x (Suc n) = x\<^sup>2 * x ^ (2 * n + 1) / (2 * 2 ^ n * (b * fact n) * c)"
    unfolding cdf_term_def f p c by simp
  also have "\<dots> = x ^ (2 * n + 1) / (2 ^ n * fact n * a) * (x\<^sup>2 * a / (2 * b * c))"
    using pos by (simp add: field_simps)
  finally show ?thesis
    by (simp only: cdf_term_def a_def b_def c_def)
qed

lemma cdf_term_decreasing:
  assumes "0 \<le> x" "x\<^sup>2 \<le> 2 * real (n + 1)"
  shows "cdf_term x (Suc n) \<le> cdf_term x n"
proof -
  have "x\<^sup>2 * real (2 * n + 1) \<le> (2 * real (n + 1)) * real (2 * n + 3)"
    by (rule mult_mono) (use assms in simp_all)
  then have "x\<^sup>2 * real (2 * n + 1) / (2 * real (n + 1) * real (2 * n + 3)) \<le> 1"
    by (simp add: divide_le_eq)
  then have "cdf_term x n * (x\<^sup>2 * real (2 * n + 1) / (2 * real (n + 1) * real (2 * n + 3)))
               \<le> cdf_term x n * 1"
    by (rule mult_left_mono) (rule cdf_term_nonneg [OF assms(1)])
  then show ?thesis by (simp add: cdf_term_Suc)
qed

lemma cdf_term_summable: "summable (\<lambda>n. (- 1) ^ n * cdf_term x n)"
proof -
  have eq: "(- 1) ^ n * cdf_term x n = x * (cdf_coeff n * (x\<^sup>2) ^ n)" for n
  proof -
    have "x ^ (2 * n + 1) = x * (x\<^sup>2) ^ n"
      by (simp add: power_mult [symmetric])
    then show ?thesis
      by (simp add: cdf_term_def cdf_coeff_def power_divide power_minus' mult_ac)
  qed
  show ?thesis
    unfolding eq by (rule summable_mult) (rule cdf_coeff_summable)
qed

lemma cdf_integral_bounds:
  assumes x: "0 \<le> x" and N: "x\<^sup>2 \<le> 2 * real (N + 1)" and ev: "even N"
  shows "(\<Sum>n<N. (- 1) ^ n * cdf_term x n) \<le> cdf_integral x"
    and "cdf_integral x \<le> (\<Sum>n<N. (- 1) ^ n * cdf_term x n) + cdf_term x N"
proof -
  let ?f = "\<lambda>n. (- 1) ^ n * cdf_term x n"
  let ?b = "\<lambda>m. cdf_term x (m + N)"
  have split: "cdf_integral x = (\<Sum>m. ?f (m + N)) + (\<Sum>n<N. ?f n)"
    unfolding cdf_term_sum [symmetric]
    by (rule suminf_split_initial_segment [OF cdf_term_summable])
  have shift: "?f (m + N) = (- 1) ^ m * ?b m" for m
    using ev by (simp add: power_add)
  have "?f \<longlonglongrightarrow> 0"
    by (rule summable_LIMSEQ_zero [OF cdf_term_summable])
  then have "(\<lambda>m. ?f (m + N)) \<longlonglongrightarrow> 0"
    by (rule LIMSEQ_ignore_initial_segment)
  then have "(\<lambda>m. \<bar>?f (m + N)\<bar>) \<longlonglongrightarrow> 0"
    by (simp only: tendsto_rabs_zero_iff)
  moreover have "\<bar>?f (m + N)\<bar> = ?b m" for m
    using cdf_term_nonneg [OF x, of "m + N"] by (simp add: abs_mult)
  ultimately have zero: "?b \<longlonglongrightarrow> 0"
    by simp
  have pos: "0 \<le> ?b m" for m
    by (rule cdf_term_nonneg [OF x])
  have mono: "?b (Suc m) \<le> ?b m" for m
  proof -
    have "x\<^sup>2 \<le> 2 * real (m + N + 1)"
      using N by simp
    then have "cdf_term x (Suc (m + N)) \<le> cdf_term x (m + N)"
      by (rule cdf_term_decreasing [OF x])
    then show ?thesis by simp
  qed
  have lo: "0 \<le> (\<Sum>i. (- 1) ^ i * ?b i)"
    using summable_Leibniz'(2) [of ?b 0, OF zero pos mono] by simp
  have hi: "(\<Sum>i. (- 1) ^ i * ?b i) \<le> cdf_term x N"
    using summable_Leibniz'(4) [of ?b 0, OF zero pos mono] by simp
  show "(\<Sum>n<N. ?f n) \<le> cdf_integral x"
    using lo unfolding split shift by simp
  show "cdf_integral x \<le> (\<Sum>n<N. ?f n) + cdf_term x N"
    using hi unfolding split shift by simp
qed

subsection \<open>Numerical bounds\<close>

text \<open>Bounds on \<open>pi\<close> from Machin's formula and the alternating series of \<open>arctan\<close>.\<close>

lemma arctan_series_bounds:
  fixes x :: real
  assumes "0 < x" "x \<le> 1"
  shows "(\<Sum>i<2 * n. (- 1) ^ i * (1 / real (i * 2 + 1) * x ^ (i * 2 + 1))) \<le> arctan x"
    and "arctan x \<le> (\<Sum>i<2 * n + 1. (- 1) ^ i * (1 / real (i * 2 + 1) * x ^ (i * 2 + 1)))"
proof -
  have ax: "\<bar>x\<bar> \<le> 1" using assms by simp
  have pos: "0 < 1 / real (0 * 2 + 1) * x ^ (0 * 2 + 1)" using assms by simp
  have "arctan x \<in> {(\<Sum>i<2 * n. (- 1) ^ i * (1 / real (i * 2 + 1) * x ^ (i * 2 + 1))) ..
                      (\<Sum>i<2 * n + 1. (- 1) ^ i * (1 / real (i * 2 + 1) * x ^ (i * 2 + 1)))}"
    using summable_Leibniz(2) [OF zeroseq_arctan_series [OF ax] monoseq_arctan_series [OF ax]] pos
    by (simp only: arctan_series [OF ax])
  then show "(\<Sum>i<2 * n. (- 1) ^ i * (1 / real (i * 2 + 1) * x ^ (i * 2 + 1))) \<le> arctan x"
    and "arctan x \<le> (\<Sum>i<2 * n + 1. (- 1) ^ i * (1 / real (i * 2 + 1) * x ^ (i * 2 + 1)))"
    by simp_all
qed

lemma arctan_5_bounds: "197395 / 1000000 \<le> arctan (1 / 5)" "arctan (1 / 5) \<le> 1973956 / 10000000"
proof -
  have "(197395 / 1000000 :: real) \<le> (\<Sum>i<2 * 2. (- 1) ^ i * (1 / real (i * 2 + 1) * (1 / 5) ^ (i * 2 + 1)))"
    by (simp add: eval_nat_numeral)
  also have "\<dots> \<le> arctan (1 / 5)"
    by (rule arctan_series_bounds) simp_all
  finally show "197395 / 1000000 \<le> arctan (1 / 5)" .
  have "arctan (1 / 5) \<le> (\<Sum>i<2 * 2 + 1. (- 1) ^ i * (1 / real (i * 2 + 1) * (1 / 5) ^ (i * 2 + 1)))"
    by (rule arctan_series_bounds) simp_all
  also have "\<dots> \<le> (1973956 / 10000000 :: real)"
    by (simp add: eval_nat_numeral)
  finally show "arctan (1 / 5) \<le> 1973956 / 10000000" .
qed

lemma arctan_239_bounds: "41840 / 10000000 \<le> arctan (1 / 239)" "arctan (1 / 239) \<le> 41842 / 10000000"
proof -
  have "(41840 / 10000000 :: real) \<le> (\<Sum>i<2 * 1. (- 1) ^ i * (1 / real (i * 2 + 1) * (1 / 239) ^ (i * 2 + 1)))"
    by (simp add: eval_nat_numeral)
  also have "\<dots> \<le> arctan (1 / 239)"
    by (rule arctan_series_bounds) simp_all
  finally show "41840 / 10000000 \<le> arctan (1 / 239)" .
  have "arctan (1 / 239) \<le> (\<Sum>i<2 * 0 + 1. (- 1) ^ i * (1 / real (i * 2 + 1) * (1 / 239) ^ (i * 2 + 1)))"
    by (rule arctan_series_bounds) simp_all
  also have "\<dots> \<le> (41842 / 10000000 :: real)"
    by (simp add: eval_nat_numeral)
  finally show "arctan (1 / 239) \<le> 41842 / 10000000" .
qed

lemma pi_bounds: "3.14158 \<le> pi" "pi \<le> 3.141594"
proof -
  have m: "pi = 16 * arctan (1 / 5) - 4 * arctan (1 / 239)"
    using machin by simp
  show "3.14158 \<le> pi"
    using arctan_5_bounds(1) arctan_239_bounds(2) unfolding m by simp
  show "pi \<le> 3.141594"
    using arctan_5_bounds(2) arctan_239_bounds(1) unfolding m by simp
qed


lemma sqrt_2pi_bounds: "2.50662 \<le> sqrt (2 * pi)" "sqrt (2 * pi) \<le> 2.50663"
proof -
  show "2.50662 \<le> sqrt (2 * pi)"
    by (rule real_le_rsqrt) (use pi_bounds(1) in \<open>simp add: power2_eq_square\<close>)
  show "sqrt (2 * pi) \<le> 2.50663"
    by (rule real_le_lsqrt) (use pi_bounds(2) in \<open>simp_all add: power2_eq_square\<close>)
qed

text \<open>
  Bounds on the distribution function at a point \<open>x \<ge> 0\<close>: the series alternates and
  its terms decrease from index \<open>N\<close> on when \<open>x\<^sup>2 \<le> 2 (N + 1)\<close>, so the sum lies
  between two consecutive partial sums.
\<close>

lemma std_normal_cdf_eq: "std_normal_cdf x = 1 / 2 + cdf_integral x / sqrt (2 * pi)"
  by (simp add: std_normal_cdf_def cdf_term_sum)

lemma std_normal_cdf_lower:
  assumes "0 \<le> x" and "x\<^sup>2 \<le> 2 * real (N + 1)" and "even N"
    and "0 \<le> S" and "S \<le> (\<Sum>n<N. (- 1) ^ n * cdf_term x n)"
  shows "1 / 2 + S / 2.50663 \<le> std_normal_cdf x"
proof -
  have i: "S \<le> cdf_integral x"
    using assms(5) cdf_integral_bounds(1) [OF assms(1-3)] by (rule order_trans)
  have "0 \<le> cdf_integral x"
    using assms(4) i by linarith
  then have "S / 2.50663 \<le> cdf_integral x / sqrt (2 * pi)"
    using i sqrt_2pi_bounds by (intro frac_le) simp_all
  then show ?thesis
    by (simp only: std_normal_cdf_eq add_left_mono)
qed

lemma std_normal_cdf_upper:
  assumes "0 \<le> x" and "x\<^sup>2 \<le> 2 * real (N + 1)" and "even N"
    and "0 \<le> S" and "(\<Sum>n<N. (- 1) ^ n * cdf_term x n) + cdf_term x N \<le> S"
  shows "std_normal_cdf x \<le> 1 / 2 + S / 2.50662"
proof -
  have i: "cdf_integral x \<le> S"
    using cdf_integral_bounds(2) [OF assms(1-3)] assms(5) by (rule order_trans)
  have "cdf_integral x / sqrt (2 * pi) \<le> S / 2.50662"
    using i assms(4) sqrt_2pi_bounds by (intro frac_le) simp_all
  then show ?thesis
    by (simp only: std_normal_cdf_eq add_left_mono)
qed

lemma std_normal_cdf_196: "0.975 \<le> std_normal_cdf (49 / 25)" "std_normal_cdf (49 / 25) \<le> 0.97501"
proof -
  have c: "(49 / 25 :: real)\<^sup>2 \<le> 2 * real (14 + 1)"
    by (simp add: power2_eq_square)
  have lo: "(11906537 / 10000000 :: real) \<le> (\<Sum>n<14. (- 1) ^ n * cdf_term (49 / 25) n)"
    by (simp add: cdf_term_def eval_nat_numeral)
  have hi: "(\<Sum>n<14. (- 1) ^ n * cdf_term (49 / 25) n) + cdf_term (49 / 25) 14
              \<le> (119065371 / 100000000 :: real)"
    by (simp add: cdf_term_def eval_nat_numeral)
  have "(0.975 :: real) \<le> 1 / 2 + (11906537 / 10000000) / 2.50663"
    by simp
  also have "\<dots> \<le> std_normal_cdf (49 / 25)"
    by (rule std_normal_cdf_lower [OF _ c _ _ lo]) simp_all
  finally show "0.975 \<le> std_normal_cdf (49 / 25)" .
  have "std_normal_cdf (49 / 25) \<le> 1 / 2 + (119065371 / 100000000) / 2.50662"
    by (rule std_normal_cdf_upper [OF _ c _ _ hi]) simp_all
  also have "\<dots> \<le> (0.97501 :: real)"
    by simp
  finally show "std_normal_cdf (49 / 25) \<le> 0.97501" .
qed

lemma std_normal_cdf_25025: "0.99383 \<le> std_normal_cdf (1001 / 400)"
proof -
  have c: "(1001 / 400 :: real)\<^sup>2 \<le> 2 * real (18 + 1)"
    by (simp add: power2_eq_square)
  have lo: "(12378583 / 10000000 :: real) \<le> (\<Sum>n<18. (- 1) ^ n * cdf_term (1001 / 400) n)"
    by (simp add: cdf_term_def eval_nat_numeral)
  have "(0.99383 :: real) \<le> 1 / 2 + (12378583 / 10000000) / 2.50663"
    by simp
  also have "\<dots> \<le> std_normal_cdf (1001 / 400)"
    by (rule std_normal_cdf_lower [OF _ c _ _ lo]) simp_all
  finally show ?thesis .
qed

lemma std_normal_cdf_2503: "std_normal_cdf (2503 / 1000) \<le> 0.99385"
proof -
  have c: "(2503 / 1000 :: real)\<^sup>2 \<le> 2 * real (18 + 1)"
    by (simp add: power2_eq_square)
  have hi: "(\<Sum>n<18. (- 1) ^ n * cdf_term (2503 / 1000) n) + cdf_term (2503 / 1000) 18
              \<le> (12378802 / 10000000 :: real)"
    by (simp add: cdf_term_def eval_nat_numeral)
  have "std_normal_cdf (2503 / 1000) \<le> 1 / 2 + (12378802 / 10000000) / 2.50662"
    by (rule std_normal_cdf_upper [OF _ c _ _ hi]) simp_all
  also have "\<dots> \<le> (0.99385 :: real)"
    by simp
  finally show ?thesis .
qed

section \<open>Results of the operations on ordinary inputs\<close>

lemma np_sqrt_Fin: "0 \<le> x \<Longrightarrow> np_sqrt (Fin x) = Fin (sqrt x)"
  by simp

lemma np_truediv_Fin: "b \<noteq> 0 \<Longrightarrow> np_truediv (Fin a) (Fin b) = Fin (a / b)"
  by simp

lemma power_n_Fin:
  assumes "0 < pooled" and "pooled < 1" and "0 < n"
  shows "0 < sqrt (pooled * (1 - pooled) * (2 / n))"
    and "power_n pooled d n =
           Fin (1 - std_normal_cdf (1.96 - d / sqrt (pooled * (1 - pooled) * (2 / n))))"
proof -
  have "0 < pooled * (1 - pooled)"
    using assms(1,2) by simp
  moreover have "0 < 2 / n"
    using assms(3) by simp
  ultimately have rad: "0 < pooled * (1 - pooled) * (2 / n)"
    by (rule mult_pos_pos)
  then show s: "0 < sqrt (pooled * (1 - pooled) * (2 / n))"
    by simp
  have n: "n \<noteq> 0"
    using assms(3) by simp
  have s': "sqrt (pooled * (1 - pooled) * (2 / n)) \<noteq> 0"
    using s by (rule less_imp_neq [symmetric])
  have rad': "0 \<le> pooled * (1 - pooled) * (2 / n)"
    using rad by (rule less_imp_le)
  have "se_n pooled n = Fin (sqrt (pooled * (1 - pooled) * (2 / n)))"
    unfolding se_n_def np_truediv_Fin [OF n] np_mul.simps by (rule np_sqrt_Fin [OF rad'])
  then have "ncp pooled d n = Fin (d / sqrt (pooled * (1 - pooled) * (2 / n)))"
    unfolding ncp_def by (simp only: np_truediv_Fin [OF s'])
  then show "power_n pooled d n =
           Fin (1 - std_normal_cdf (1.96 - d / sqrt (pooled * (1 - pooled) * (2 / n))))"
    unfolding power_n_def np_sub_def by (simp only: np_neg.simps np_add.simps norm_cdf.simps) simp
qed

lemma compute_test_result_nondegenerate:
  fixes cv cc vv vc :: int
  defines "pp \<equiv> real_of_int (cc + vc) / real_of_int (cv + vv)"
  defines "R \<equiv> pp * (1 - pp) * (1 / real_of_int cv + 1 / real_of_int vv)"
  defines "d \<equiv> real_of_int vc / real_of_int vv - real_of_int cc / real_of_int cv"
  defines "p \<equiv> 2 * (1 - std_normal_cdf \<bar>d / sqrt R\<bar>)"
  assumes "valid_inputs cv cc vv vc" and "moderate_size cv vv"
    and "0 < cc + vc" and "cc + vc < cv + vv"
  shows "0 < sqrt R"
    and "compute_test_result cv cc vv vc =
          Inr \<lparr>p_control = real_of_int cc / real_of_int cv,
               p_variant = real_of_int vc / real_of_int vv,
               p_pooled = pp, se = Fin (sqrt R), z_stat = Fin (d / sqrt R), p_value = Fin p,
               significant = (p < 0.05)\<rparr>"
proof -
  have pos: "0 < cv" "0 < vv"
    using assms(5) by (auto simp: valid_inputs_def valid_variant_def)
  have pp: "0 < pp" "pp < 1"
    using assms(7,8) pos by (simp_all add: pp_def)
  have inv: "0 < 1 / real_of_int cv + 1 / real_of_int vv"
    using pos by (simp add: add_pos_pos)
  have "0 < pp * (1 - pp)"
    using pp by simp
  then have rad: "0 < R"
    unfolding R_def using inv by (rule mult_pos_pos)
  then show s: "0 < sqrt R"
    by simp
  have sq: "np_sqrt (Fin R) = Fin (sqrt R)"
    using rad by simp
  have dv: "np_truediv (Fin d) (Fin (sqrt R)) = Fin (d / sqrt R)"
    using s by simp
  have pv: "np_mul (Fin 2) (np_sub (Fin 1) (norm_cdf (np_abs (Fin (d / sqrt R))))) = Fin p"
    by (simp add: np_sub_def p_def)
  show "compute_test_result cv cc vv vc =
          Inr \<lparr>p_control = real_of_int cc / real_of_int cv,
               p_variant = real_of_int vc / real_of_int vv,
               p_pooled = pp, se = Fin (sqrt R), z_stat = Fin (d / sqrt R), p_value = Fin p,
               significant = (p < 0.05)\<rparr>"
    unfolding compute_test_result_valid [OF assms(5)] Let_def pp_def [symmetric]
    unfolding R_def [symmetric] d_def [symmetric] sq dv pv
    by simp
qed

lemma reference_values:
  fixes s z p :: real
  defines "s \<equiv> sqrt (27 / 500 * (1 - 27 / 500) * (1 / 10000 + 1 / 10000))"
  defines "z \<equiv> (29 / 500 - 1 / 20) / s"
  defines "p \<equiv> 2 * (1 - std_normal_cdf \<bar>z\<bar>)"
  shows "0.0031963 \<le> s" and "s \<le> 0.0031964"
    and "2.5025 \<le> z" and "z \<le> 2.503"
    and "0.0123 \<le> p" and "p \<le> 0.01234"
proof -
  show s1: "0.0031963 \<le> s"
    unfolding s_def by (rule real_le_rsqrt) (simp add: power2_eq_square)
  show s2: "s \<le> 0.0031964"
    unfolding s_def by (rule real_le_lsqrt) (simp_all add: power2_eq_square)
  have sp: "0 < s"
    using s1 by simp
  have "(2.5025 :: real) \<le> (29 / 500 - 1 / 20) / 0.0031964"
    by simp
  also have "\<dots> \<le> z"
    unfolding z_def using s2 sp by (intro divide_left_mono) simp_all
  finally show z1: "2.5025 \<le> z" .
  have "z \<le> (29 / 500 - 1 / 20) / 0.0031963"
    unfolding z_def using s1 sp by (intro divide_left_mono) simp_all
  also have "\<dots> \<le> (2.503 :: real)"
    by simp
  finally show z2: "z \<le> 2.503" .
  have az: "\<bar>z\<bar> = z"
    using z1 by simp
  have "std_normal_cdf (1001 / 400) \<le> std_normal_cdf z"
    using z1 by (intro std_normal_cdf_mono) simp
  then have lo: "0.99383 \<le> std_normal_cdf z"
    using std_normal_cdf_25025 by linarith
  have "std_normal_cdf z \<le> std_normal_cdf (2503 / 1000)"
    using z2 by (intro std_normal_cdf_mono) simp
  then have hi: "std_normal_cdf z \<le> 0.99385"
    using std_normal_cdf_2503 by linarith
  show "0.0123 \<le> p"
    unfolding p_def az using hi by simp
  show "p \<le> 0.01234"
    unfolding p_def az using lo by simp
qed

lemma reference_result:
  "compute_test_result 10000 500 10000 580 =
     Inr \<lparr>p_control = 1 / 20, p_variant = 29 / 500, p_pooled = 27 / 500,
          se = Fin (sqrt (27 / 500 * (1 - 27 / 500) * (1 / 10000 + 1 / 10000))),
          z_stat = Fin ((29 / 500 - 1 / 20) /
                    sqrt (27 / 500 * (1 - 27 / 500) * (1 / 10000 + 1 / 10000))),
          p_value = Fin (2 * (1 - std_normal_cdf \<bar>(29 / 500 - 1 / 20) /
                    sqrt (27 / 500 * (1 - 27 / 500) * (1 / 10000 + 1 / 10000))\<bar>)),
          significant = (2 * (1 - std_normal_cdf \<bar>(29 / 500 - 1 / 20) /
                    sqrt (27 / 500 * (1 - 27 / 500) * (1 / 10000 + 1 / 10000))\<bar>) < 0.05)\<rparr>"
proof -
  have v: "valid_inputs 10000 500 10000 580"
    by (simp add: valid_inputs_def valid_variant_def)
  have m: "moderate_size 10000 10000"
    by (simp add: moderate_size_def)
  have e: "real_of_int (500 + 580) / real_of_int (10000 + 10000) = 27 / 500"
    "real_of_int 580 / real_of_int 10000 = 29 / 500"
    "real_of_int 500 / real_of_int 10000 = 1 / 20"
    "real_of_int 10000 = 10000"
    by simp_all
  show ?thesis
    using compute_test_result_nondegenerate(2) [OF v m] unfolding e by simp
qed

lemma np_lt_NaN: "\<not> np_lt x NaN" "\<not> np_lt NaN y"
  by (cases x; simp) simp

lemma compute_test_result_degenerate:
  assumes "valid_inputs cv cc vv vc" and "cc + vc = 0 \<or> cc + vc = cv + vv"
  shows "\<exists>r. compute_test_result cv cc vv vc = Inr r \<and> (p_pooled r = 0 \<or> p_pooled r = 1) \<and>
           se r = Fin 0 \<and> z_stat r = NaN \<and> p_value r = NaN \<and> \<not> significant r"
proof -
  have nz: "cv \<noteq> 0" "vv \<noteq> 0" "cv + vv \<noteq> 0"
    using valid_inputs_nonzero [OF assms(1)] .
  from assms have "(cc = 0 \<and> vc = 0) \<or> (cc = cv \<and> vc = vv)"
    by (auto simp: valid_inputs_def valid_variant_def)
  then show ?thesis
  proof
    assume "cc = 0 \<and> vc = 0"
    then show ?thesis using nz by (simp add: compute_defs)
  next
    assume "cc = cv \<and> vc = vv"
    then show ?thesis using nz by (simp add: compute_defs)
  qed
qed

lemma z_stat_cases:
  assumes "valid_inputs cv cc vv vc" and "moderate_size cv vv"
  shows "\<exists>r. compute_test_result cv cc vv vc = Inr r \<and>
           (if 0 < cc + vc \<and> cc + vc < cv + vv
            then z_stat r =
              Fin ((real_of_int vc / real_of_int vv - real_of_int cc / real_of_int cv) /
                sqrt ((real_of_int cc + real_of_int vc) / (real_of_int cv + real_of_int vv) *
                      (1 - (real_of_int cc + real_of_int vc) / (real_of_int cv + real_of_int vv)) *
                      (1 / real_of_int cv + 1 / real_of_int vv)))
            else z_stat r = NaN)"
proof (cases "0 < cc + vc \<and> cc + vc < cv + vv")
  case True
  then show ?thesis
    using compute_test_result_nondegenerate(2) [OF assms] by simp
next
  case False
  moreover have "0 \<le> cc + vc" "cc + vc \<le> cv + vv"
    using assms by (auto simp: valid_inputs_def valid_variant_def)
  ultimately have "cc + vc = 0 \<or> cc + vc = cv + vv"
    by linarith
  from compute_test_result_degenerate [OF assms(1) this] False show ?thesis
    by auto
qed

section \<open>Input validation\<close>

text \<open>
  Claim C3 says that \<open>compute_test_result\<close> raises \<open>InvalidInputError\<close> exactly when a
  visitor count is not positive or a conversion count is negative or exceeds its visitor
  count. The script validates nothing: with control \<open>(100, 101)\<close> and variant
  \<open>(100, 50)\<close>, where a conversion count is one more than its visitor count, the
  computation goes through.
\<close>

theorem invalid_input_accepted:
  "\<not> valid_inputs 100 101 100 50 \<and> \<not> isl (compute_test_result 100 101 100 50)"
  by (simp add: compute_defs valid_inputs_def valid_variant_def)

text \<open>
  Claim C3, as the script behaves. The computation never raises \<open>InvalidInputError\<close>.
  What it raises comes from the three divisions of ints at lines 22, 23 and 26, taken
  in this order: each raises \<open>ZeroDivisionError\<close> when its divisor (the control
  visitors, the variant visitors, the sum of the two) is zero, and otherwise
  \<open>OverflowError\<close> when its quotient (the control rate, the variant rate, the pooled
  rate) has a magnitude of \<open>2 ^ 1024 - 2 ^ 970\<close> or more; the first that raises decides,
  and nothing else raises. So with positive visitor counts neither a conversion count
  equal to its visitor count nor one that is one above it raises anything.
\<close>

theorem no_input_validation:
  "compute_test_result cv cc vv vc \<noteq> Inl InvalidInputError \<and>
   (compute_test_result cv cc vv vc = Inl ZeroDivisionError \<longleftrightarrow>
      cv = 0 \<or>
      \<not> float_overflow (of_int cc / of_int cv) \<and>
        (vv = 0 \<or> \<not> float_overflow (of_int vc / of_int vv) \<and> cv + vv = 0)) \<and>
   (compute_test_result cv cc vv vc = Inl OverflowError \<longleftrightarrow>
      cv \<noteq> 0 \<and>
        (float_overflow (of_int cc / of_int cv) \<or>
         vv \<noteq> 0 \<and>
           (float_overflow (of_int vc / of_int vv) \<or>
            cv + vv \<noteq> 0 \<and> float_overflow (of_int (cc + vc) / of_int (cv + vv))))) \<and>
   (isl (compute_test_result cv cc vv vc) \<longrightarrow>
      compute_test_result cv cc vv vc = Inl ZeroDivisionError \<or>
      compute_test_result cv cc vv vc = Inl OverflowError) \<and>
   (0 < cv \<and> 0 < vv \<and> 0 \<le> cc \<and> cc \<le> cv + 1 \<and> 0 \<le> vc \<and> vc \<le> vv + 1 \<longrightarrow>
      \<not> isl (compute_test_result cv cc vv vc))"
proof -
  have "\<not> isl (compute_test_result cv cc vv vc)"
    if "0 < cv \<and> 0 < vv \<and> 0 \<le> cc \<and> cc \<le> cv + 1 \<and> 0 \<le> vc \<and> vc \<le> vv + 1"
  proof -
    have "cv \<noteq> 0" "vv \<noteq> 0" "cv + vv \<noteq> 0"
      "\<bar>cc\<bar> \<le> 2 * \<bar>cv\<bar>" "\<bar>vc\<bar> \<le> 2 * \<bar>vv\<bar>" "\<bar>cc + vc\<bar> \<le> 2 * \<bar>cv + vv\<bar>"
      using that by simp_all
    then show ?thesis
      by (simp add: compute_test_result_Inr Let_def)
  qed
  moreover have "compute_test_result cv cc vv vc \<noteq> Inl InvalidInputError"
    by (simp add: compute_test_result_cases Let_def)
  moreover have "compute_test_result cv cc vv vc = Inl ZeroDivisionError \<longleftrightarrow>
      cv = 0 \<or>
      \<not> float_overflow (of_int cc / of_int cv) \<and>
        (vv = 0 \<or> \<not> float_overflow (of_int vc / of_int vv) \<and> cv + vv = 0)"
    by (simp add: compute_test_result_cases Let_def)
  moreover have "compute_test_result cv cc vv vc = Inl OverflowError \<longleftrightarrow>
      cv \<noteq> 0 \<and>
        (float_overflow (of_int cc / of_int cv) \<or>
         vv \<noteq> 0 \<and>
           (float_overflow (of_int vc / of_int vv) \<or>
            cv + vv \<noteq> 0 \<and> float_overflow (of_int (cc + vc) / of_int (cv + vv))))"
    by (simp add: compute_test_result_cases Let_def)
  moreover have "isl (compute_test_result cv cc vv vc) \<longrightarrow>
      compute_test_result cv cc vv vc = Inl ZeroDivisionError \<or>
      compute_test_result cv cc vv vc = Inl OverflowError"
    by (simp add: compute_test_result_cases Let_def)
  ultimately show ?thesis
    by blast
qed

theorem no_input_validation_witness:
  "compute_test_result 0 5 10 5 = Inl ZeroDivisionError \<and>
   compute_test_result 1 (2 ^ 1024) 1 0 = Inl OverflowError \<and>
   compute_test_result 1 (2 ^ 1024) 0 0 = Inl OverflowError \<and>
   compute_test_result 10 5 0 (2 ^ 1024) = Inl ZeroDivisionError \<and>
   \<not> isl (compute_test_result 10 10 10 11)"
proof -
  have o: "float_overflow (real_of_int (2 ^ 1024) / real_of_int 1)"
    using float_overflow_power by simp
  have n: "\<not> float_overflow (real_of_int 5 / real_of_int 10)"
    by (rule not_float_overflow) simp
  have a: "compute_test_result 0 5 10 5 = Inl ZeroDivisionError"
    using no_input_validation [of 0 5 10 5] by blast
  have i: "(1::int) \<noteq> 0"
    by simp
  have b: "compute_test_result 1 (2 ^ 1024) 1 0 = Inl OverflowError"
    using no_input_validation [of 1 "2 ^ 1024" 1 0] o i by blast
  have c: "compute_test_result 1 (2 ^ 1024) 0 0 = Inl OverflowError"
    using no_input_validation [of 1 "2 ^ 1024" 0 0] o i by blast
  have d: "compute_test_result 10 5 0 (2 ^ 1024) = Inl ZeroDivisionError"
    using no_input_validation [of 10 5 0 "2 ^ 1024"] n by blast
  have "(0::int) < 10 \<and> (0::int) < 10 \<and> (0::int) \<le> 10 \<and> (10::int) \<le> 10 + 1 \<and>
        (0::int) \<le> 11 \<and> (11::int) \<le> 10 + 1"
    by simp
  then have e: "\<not> isl (compute_test_result 10 10 10 11)"
    using no_input_validation [of 10 10 10 11] by blast
  show ?thesis
    using a b c d e by blast
qed

section \<open>The test statistics\<close>

text \<open>
  Claim C1 gives the formulas of the result for every valid pair of variants. With
  \<open>10\<close> conversions out of \<open>10\<close> visitors in both arms the pooled rate is \<open>1\<close>, the
  standard error is \<open>0\<close>, and the quotient and the p-value are NaN, not numbers.
\<close>

theorem pooled_rate_one_is_nan:
  "valid_inputs 10 10 10 10 \<and> \<not> isl (compute_test_result 10 10 10 10) \<and>
   np_isnan (z_stat (projr (compute_test_result 10 10 10 10))) \<and>
   np_isnan (p_value (projr (compute_test_result 10 10 10 10)))"
  by (simp add: compute_defs valid_inputs_def valid_variant_def)

text \<open>
  Claim C1, for every valid pair with at most \<open>2 ^ 20\<close> visitors in each arm whose
  pooled rate lies strictly between \<open>0\<close> and \<open>1\<close>: the computation returns a result
  with the two rates, the pooled rate, the standard error
  \<open>sqrt (pooled (1 - pooled) (1 / n_control + 1 / n_variant))\<close>, which is positive, the
  quotient of the difference of the rates by it, the two-tailed p-value
  \<open>2 (1 - \<Phi> \<bar>z\<bar>)\<close>, and the verdict \<open>p < 0.05\<close>. The values are the exact ones, which
  the doubles of the script follow up to rounding at this size.
\<close>

theorem compute_test_result_formulas:
  assumes "valid_inputs cv cc vv vc" and "moderate_size cv vv"
    and "0 < cc + vc" and "cc + vc < cv + vv"
  shows "\<exists>r s z. compute_test_result cv cc vv vc = Inr r \<and>
           p_control r = of_int cc / of_int cv \<and>
           p_variant r = of_int vc / of_int vv \<and>
           p_pooled r = of_int (cc + vc) / of_int (cv + vv) \<and>
           s = sqrt (p_pooled r * (1 - p_pooled r) * (1 / of_int cv + 1 / of_int vv)) \<and>
           0 < s \<and> se r = Fin s \<and>
           z = (p_variant r - p_control r) / s \<and> z_stat r = Fin z \<and>
           p_value r = Fin (2 * (1 - std_normal_cdf \<bar>z\<bar>)) \<and>
           (significant r \<longleftrightarrow> 2 * (1 - std_normal_cdf \<bar>z\<bar>) < 0.05)"
  using compute_test_result_nondegenerate [OF assms] by simp

theorem compute_test_result_formulas_witness:
  "valid_inputs 2 1 2 1 \<and> moderate_size 2 2 \<and> (0::int) < 1 + 1 \<and> (1::int) + 1 < 2 + 2 \<and>
   (\<exists>r. compute_test_result 2 1 2 1 = Inr r \<and> p_control r = 1 / 2 \<and> p_variant r = 1 / 2 \<and>
      p_pooled r = 1 / 2 \<and> se r = Fin (1 / 2) \<and> z_stat r = Fin 0 \<and> p_value r = Fin 1 \<and>
      \<not> significant r)"
proof -
  have v: "valid_inputs 2 1 2 1"
    by (simp add: valid_inputs_def valid_variant_def)
  have m: "moderate_size 2 2"
    by (simp add: moderate_size_def)
  have a: "(0::int) < 1 + 1" and b: "(1::int) + 1 < 2 + 2"
    by simp_all
  have q: "sqrt (1 / 4) = 1 / 2"
    by (simp add: real_sqrt_divide)
  have c0: "std_normal_cdf 0 = 1 / 2"
    by (simp add: std_normal_cdf_def cdf_term_def)
  from compute_test_result_formulas [OF v m a b] obtain r s z where
    r: "compute_test_result 2 1 2 1 = Inr r"
    and pc: "p_control r = of_int 1 / of_int 2"
    and pv: "p_variant r = of_int 1 / of_int 2"
    and pp: "p_pooled r = of_int (1 + 1) / of_int (2 + 2)"
    and s: "s = sqrt (p_pooled r * (1 - p_pooled r) * (1 / of_int 2 + 1 / of_int 2))"
    and se: "se r = Fin s"
    and z: "z = (p_variant r - p_control r) / s"
    and zs: "z_stat r = Fin z"
    and p: "p_value r = Fin (2 * (1 - std_normal_cdf \<bar>z\<bar>))"
    and sig: "significant r \<longleftrightarrow> 2 * (1 - std_normal_cdf \<bar>z\<bar>) < 0.05"
    by blast
  have s': "s = 1 / 2"
    unfolding s pp using q by simp
  have z': "z = 0"
    unfolding z pc pv by simp
  show ?thesis
    using v m r pc pv pp se zs p sig by (simp add: s' z' c0)
qed

section \<open>The degenerate case\<close>

text \<open>
  Claim C2 says that with a pooled rate of \<open>0\<close> or \<open>1\<close> the result is \<open>z = 0\<close>,
  \<open>p = 1\<close>, without NaN. For control \<open>(100, 0)\<close> and variant \<open>(100, 0)\<close> the script
  divides \<open>0.0\<close> by the NumPy scalar \<open>0.0\<close>: nothing is raised, and both values are NaN.
\<close>

theorem zero_over_zero_is_nan:
  "\<not> isl (compute_test_result 100 0 100 0) \<and>
   z_stat (projr (compute_test_result 100 0 100 0)) \<noteq> Fin 0 \<and>
   np_isnan (z_stat (projr (compute_test_result 100 0 100 0))) \<and>
   p_value (projr (compute_test_result 100 0 100 0)) \<noteq> Fin 1 \<and>
   np_isnan (p_value (projr (compute_test_result 100 0 100 0)))"
  by (simp add: compute_defs)

text \<open>
  Claim C2, as the script behaves: for every valid pair with pooled rate \<open>0\<close> or \<open>1\<close>
  the computation raises nothing, the standard error is exactly \<open>0\<close>, the z-statistic
  and the p-value are NaN, and the verdict is "not significant".
\<close>

theorem degenerate_variance:
  assumes "valid_inputs cv cc vv vc" and "cc + vc = 0 \<or> cc + vc = cv + vv"
  shows "\<exists>r. compute_test_result cv cc vv vc = Inr r \<and> (p_pooled r = 0 \<or> p_pooled r = 1) \<and>
           se r = Fin 0 \<and> z_stat r = NaN \<and> p_value r = NaN \<and> \<not> significant r"
  using compute_test_result_degenerate [OF assms] .

theorem degenerate_variance_witness:
  "valid_inputs 10 10 10 10 \<and> (10 + 10 = (0::int) \<or> (10::int) + 10 = 10 + 10) \<and>
   (\<exists>r. compute_test_result 10 10 10 10 = Inr r \<and> (p_pooled r = 0 \<or> p_pooled r = 1) \<and>
           se r = Fin 0 \<and> z_stat r = NaN \<and> p_value r = NaN \<and> \<not> significant r)"
proof -
  have v: "valid_inputs 10 10 10 10"
    by (simp add: valid_inputs_def valid_variant_def)
  have d: "10 + 10 = (0::int) \<or> (10::int) + 10 = 10 + 10"
    by simp
  show ?thesis
    using v d degenerate_variance [OF v d] by blast
qed

section \<open>The reference scenario\<close>

text \<open>
  Claim C4 gives the results for the literal inputs of the script, control
  \<open>(10000, 500)\<close> and variant \<open>(10000, 580)\<close>. Reading \<open>\<approx>\<close> as agreement to the decimals
  shown, two of its values are off: the standard error is at least \<open>0.0031963\<close>, which
  is not \<open>0.003195\<close> to six decimals, and the z-statistic is at most \<open>2.503\<close>, which is
  not \<open>2.505\<close> to three decimals.
\<close>

theorem claimed_digits_differ:
  "\<not> agrees (se (projr (compute_test_result 10000 500 10000 580))) 0.003195 0.0000005 \<and>
   \<not> agrees (z_stat (projr (compute_test_result 10000 500 10000 580))) 2.505 0.0005"
  unfolding reference_result using reference_values
  by (simp add: abs_le_iff)

text \<open>
  Claim C4 with the digits that the script computes: the rates are \<open>0.05\<close>, \<open>0.058\<close> and
  \<open>0.054\<close>, the standard error is \<open>0.003196\<close> to six decimals, the z-statistic is \<open>2.503\<close>
  to three decimals, the p-value is \<open>0.0123\<close> to four decimals, and the result is
  significant.
\<close>

theorem reference_scenario:
  "\<exists>r. compute_test_result 10000 500 10000 580 = Inr r \<and>
        p_control r = 0.05 \<and> p_variant r = 0.058 \<and> p_pooled r = 0.054 \<and>
        agrees (se r) 0.003196 0.0000005 \<and> agrees (z_stat r) 2.503 0.0005 \<and>
        agrees (p_value r) 0.0123 0.00005 \<and> significant r"
  unfolding reference_result using reference_values
  by (simp add: abs_le_iff)

section \<open>Statistical power\<close>

text \<open>
  Claim C5: for a positive effect size and a pooled rate strictly between \<open>0\<close> and \<open>1\<close>,
  the power computed by the loop body, \<open>1 - \<Phi> (1.96 - effect / sqrt (pooled (1 - pooled) (2 / n)))\<close>,
  is a number for every positive sample size and does not decrease when the sample size
  grows.
\<close>

theorem power_monotone_in_sample_size:
  assumes "0 < effect_size" and "0 < pooled" and "pooled < 1" and "0 < n1" and "n1 \<le> n2"
  shows "\<exists>a b. power_n pooled effect_size n1 = Fin a \<and> power_n pooled effect_size n2 = Fin b \<and>
           a = 1 - std_normal_cdf (1.96 - effect_size / sqrt (pooled * (1 - pooled) * (2 / n1))) \<and>
           b = 1 - std_normal_cdf (1.96 - effect_size / sqrt (pooled * (1 - pooled) * (2 / n2))) \<and>
           a \<le> b"
proof -
  let ?s = "\<lambda>n. sqrt (pooled * (1 - pooled) * (2 / n))"
  have n2: "0 < n2"
    using assms(4,5) by linarith
  have s1: "0 < ?s n1" and s2: "0 < ?s n2"
    using power_n_Fin(1) [OF assms(2,3)] assms(4) n2 by simp_all
  have "2 / n2 \<le> 2 / n1"
    using assms(4,5) by (simp add: frac_le)
  moreover have "0 \<le> pooled * (1 - pooled)"
    using assms(2,3) by simp
  ultimately have "pooled * (1 - pooled) * (2 / n2) \<le> pooled * (1 - pooled) * (2 / n1)"
    by (rule mult_left_mono)
  then have "?s n2 \<le> ?s n1"
    by (simp only: real_sqrt_le_iff)
  then have "effect_size / ?s n1 \<le> effect_size / ?s n2"
    using assms(1) s2 by (intro divide_left_mono) (simp_all add: s1)
  then have "1.96 - effect_size / ?s n2 \<le> 1.96 - effect_size / ?s n1"
    by simp
  then have "std_normal_cdf (1.96 - effect_size / ?s n2) \<le> std_normal_cdf (1.96 - effect_size / ?s n1)"
    by (rule std_normal_cdf_mono)
  then show ?thesis
    using power_n_Fin(2) [OF assms(2,3,4)] power_n_Fin(2) [OF assms(2,3) n2] by simp
qed

theorem power_monotone_in_sample_size_witness:
  "(0::real) < 1 \<and> (0::real) < 1 / 2 \<and> (1 / 2 :: real) < 1 \<and> (0::real) < 2 \<and> (2::real) \<le> 8 \<and>
   (\<exists>a b. power_n (1 / 2) 1 2 = Fin a \<and> power_n (1 / 2) 1 8 = Fin b \<and>
      a = 1 - std_normal_cdf (- 1 / 25) \<and> b = 1 - std_normal_cdf (- 51 / 25) \<and> a \<le> b)"
proof -
  have h: "(0::real) < 1" "(0::real) < 1 / 2" "(1 / 2 :: real) < 1" "(0::real) < 2" "(2::real) \<le> 8"
    by simp_all
  have q: "sqrt (1 / 4) = 1 / 2" "sqrt (1 / 16) = 1 / 4"
    by (simp_all add: real_sqrt_divide)
  have e: "(1 / 2 :: real) * (1 - 1 / 2) * (2 / 2) = 1 / 4" "(1 / 2 :: real) * (1 - 1 / 2) * (2 / 8) = 1 / 16"
    by simp_all
  from power_monotone_in_sample_size [OF h] obtain a b where
    "power_n (1 / 2) 1 2 = Fin a" "power_n (1 / 2) 1 8 = Fin b"
    "a = 1 - std_normal_cdf (1.96 - 1 / sqrt (1 / 2 * (1 - 1 / 2) * (2 / 2)))"
    "b = 1 - std_normal_cdf (1.96 - 1 / sqrt (1 / 2 * (1 - 1 / 2) * (2 / 8)))"
    "a \<le> b"
    by blast
  then show ?thesis
    unfolding e q by simp
qed

text \<open>
  Claim C6 says that the power at effect size \<open>0\<close> is about \<open>\<alpha> = 0.05\<close>. The loop body
  takes the upper tail only: at effect size \<open>0\<close> it gives \<open>1 - \<Phi> 1.96\<close>, at most \<open>0.025\<close>,
  which is not \<open>0.05\<close> to the two decimals shown.
\<close>

theorem zero_effect_power_is_not_alpha:
  "\<not> agrees (power_n (27 / 500) 0 10000) 0.05 0.005"
proof -
  have p: "power_n (27 / 500) 0 10000 = Fin (1 - std_normal_cdf 1.96)"
    using power_n_Fin(2) [of "27 / 500" 10000 0] by simp
  have eq: "(1.96 :: real) = 49 / 25"
    by simp
  have "1 - std_normal_cdf 1.96 \<le> 0.025"
    using std_normal_cdf_196(1) unfolding eq by simp
  then show ?thesis
    by (simp add: p abs_le_iff)
qed

text \<open>
  Claim C6, as the script computes it: for effect size \<open>0\<close>, a pooled rate strictly
  between \<open>0\<close> and \<open>1\<close> and every positive sample size, the power is \<open>1 - \<Phi> 1.96\<close>,
  whatever the sample size and the pooled rate; it is \<open>0.025\<close> up to \<open>0.00001\<close>, half of
  \<open>\<alpha>\<close>.
\<close>

theorem power_at_zero_effect:
  assumes "0 < pooled" and "pooled < 1" and "0 < n"
  shows "power_n pooled 0 n = Fin (1 - std_normal_cdf 1.96) \<and>
         agrees (power_n pooled 0 n) 0.025 0.00001"
proof -
  have p: "power_n pooled 0 n = Fin (1 - std_normal_cdf 1.96)"
    using power_n_Fin(2) [OF assms, of 0] by simp
  have eq: "(1.96 :: real) = 49 / 25"
    by simp
  have "\<bar>(1 - std_normal_cdf 1.96) - 0.025\<bar> \<le> 0.00001"
    using std_normal_cdf_196 unfolding eq by (simp add: abs_le_iff)
  then show ?thesis
    by (simp add: p)
qed

theorem power_at_zero_effect_witness:
  "(0::real) < 27 / 500 \<and> (27 / 500 :: real) < 1 \<and> (0::real) < 1000 \<and>
   power_n (27 / 500) 0 1000 = Fin (1 - std_normal_cdf 1.96) \<and>
   agrees (power_n (27 / 500) 0 1000) 0.025 0.00001"
proof -
  have h: "(0::real) < 27 / 500" "(27 / 500 :: real) < 1" "(0::real) < 1000"
    by simp_all
  show ?thesis
    using h power_at_zero_effect [OF h] by blast
qed

section \<open>Monotonicity of the z-statistic\<close>

text \<open>
  With \<open>S\<close> the total number of conversions and \<open>N\<close> the total number of visitors, the
  z-statistic is a positive multiple of
  \<open>(m - C) sqrt (S / (N - S)) - C sqrt ((N - S) / S)\<close>, where \<open>m\<close> and \<open>C\<close> are the
  visitors and conversions of the control arm: both terms grow with \<open>S\<close>.
\<close>

lemma z_formula:
  fixes m n C x :: real
  assumes m: "0 < m" and n: "0 < n" and S0: "0 < C + x" and S1: "C + x < m + n"
  shows "(x / n - C / m) /
           sqrt ((C + x) / (m + n) * (1 - (C + x) / (m + n)) * (1 / m + 1 / n)) =
         sqrt ((m + n) * m * n) / (m * n) *
           ((m - C) * (sqrt (C + x) / sqrt (m + n - (C + x))) -
            C * (sqrt (m + n - (C + x)) / sqrt (C + x)))"
proof -
  define u v K where "u = sqrt (C + x)" and "v = sqrt (m + n - (C + x))"
    and "K = sqrt ((m + n) * m * n)"
  have u: "0 < u" and v: "0 < v" and K: "0 < K"
    using assms by (simp_all add: u_def v_def K_def)
  have u2: "u\<^sup>2 = C + x" and v2: "v\<^sup>2 = m + n - (C + x)" and K2: "K\<^sup>2 = (m + n) * m * n"
    using assms by (simp_all add: u_def v_def K_def)
  have N: "m + n = u\<^sup>2 + v\<^sup>2"
    using u2 v2 by simp
  have "(C + x) / (m + n) * (1 - (C + x) / (m + n)) * (1 / m + 1 / n) =
          u\<^sup>2 * v\<^sup>2 / K\<^sup>2"
  proof -
    define N S where "N = m + n" and "S = C + x"
    have Np: "0 < N"
      using m n by (simp add: N_def)
    have a: "1 / m + 1 / n = N / (m * n)"
      using m n by (simp add: N_def field_simps)
    have "S / N * (1 - S / N) * (N / (m * n)) = S * (N - S) / (N * m * n)"
      using Np m n by (simp add: field_simps)
    then have "(C + x) / (m + n) * (1 - (C + x) / (m + n)) * (1 / m + 1 / n) =
            (C + x) * (m + n - (C + x)) / ((m + n) * m * n)"
      unfolding a unfolding N_def S_def .
    then show ?thesis
      by (simp only: u2 v2 K2)
  qed
  also have "\<dots> = (u * v / K)\<^sup>2"
    by (simp add: power_mult_distrib power_divide)
  finally have "sqrt ((C + x) / (m + n) * (1 - (C + x) / (m + n)) * (1 / m + 1 / n)) = u * v / K"
    using u v K by (simp add: real_sqrt_unique)
  moreover have "x / n - C / m = ((m - C) * u\<^sup>2 - C * v\<^sup>2) / (m * n)"
  proof -
    have "(m - C) * u\<^sup>2 - C * v\<^sup>2 = m * x - n * C"
      unfolding u2 v2 by (simp add: algebra_simps)
    then show ?thesis
      using m n by (simp add: field_simps)
  qed
  moreover have "((m - C) * u\<^sup>2 - C * v\<^sup>2) / (m * n) / (u * v / K) =
                   K / (m * n) * ((m - C) * (u / v) - C * (v / u))"
    using u v K m n by (simp add: field_simps power2_eq_square)
  ultimately show ?thesis
    by (simp only: u_def [symmetric] v_def [symmetric] K_def [symmetric])
qed

lemma z_nondecreasing:
  fixes m n C x1 x2 :: real
  assumes m: "0 < m" and n: "0 < n" and C: "0 \<le> C" "C \<le> m"
    and x: "0 < C + x1" "x1 \<le> x2" "C + x2 < m + n"
  shows "(x1 / n - C / m) /
           sqrt ((C + x1) / (m + n) * (1 - (C + x1) / (m + n)) * (1 / m + 1 / n))
         \<le> (x2 / n - C / m) /
           sqrt ((C + x2) / (m + n) * (1 - (C + x2) / (m + n)) * (1 / m + 1 / n))"
proof -
  let ?u = "\<lambda>x. sqrt (C + x)" and ?v = "\<lambda>x. sqrt (m + n - (C + x))"
  have p: "0 < ?u x1" "0 < ?u x2" "0 < ?v x1" "0 < ?v x2"
    using x by simp_all
  have uu: "?u x1 \<le> ?u x2" and vv: "?v x2 \<le> ?v x1"
    using x(2) by simp_all
  have a: "?u x1 / ?v x1 \<le> ?u x2 / ?v x2"
    using p uu vv by (intro frac_le) simp_all
  have b: "?v x2 / ?u x2 \<le> ?v x1 / ?u x1"
    using p uu vv by (intro frac_le) simp_all
  have "(m - C) * (?u x1 / ?v x1) \<le> (m - C) * (?u x2 / ?v x2)"
    using a C(2) by (intro mult_left_mono) simp_all
  moreover have "C * (?v x2 / ?u x2) \<le> C * (?v x1 / ?u x1)"
    using b C(1) by (intro mult_left_mono)
  ultimately have "(m - C) * (?u x1 / ?v x1) - C * (?v x1 / ?u x1)
                 \<le> (m - C) * (?u x2 / ?v x2) - C * (?v x2 / ?u x2)"
    by linarith
  moreover have "0 \<le> sqrt ((m + n) * m * n) / (m * n)"
    using m n by simp
  ultimately have "sqrt ((m + n) * m * n) / (m * n) *
                     ((m - C) * (?u x1 / ?v x1) - C * (?v x1 / ?u x1))
                 \<le> sqrt ((m + n) * m * n) / (m * n) *
                     ((m - C) * (?u x2 / ?v x2) - C * (?v x2 / ?u x2))"
    by (intro mult_left_mono)
  moreover have "0 < C + x2" "C + x1 < m + n"
    using x by linarith+
  ultimately show ?thesis
    using z_formula [OF m n x(1)] z_formula [OF m n _ x(3)] by simp
qed

text \<open>
  Claim C7 says that raising the variant conversions never decreases the z-statistic,
  for every valid input. With two conversions out of two visitors in the control arm
  and two visitors in the variant arm, one variant conversion gives a number, and two
  give a pooled rate of \<open>1\<close> and the z-statistic NaN, which is not greater than or
  equal to anything.
\<close>

theorem z_stat_nan_at_full_conversion:
  "valid_inputs 2 2 2 1 \<and> valid_inputs 2 2 2 2 \<and>
   \<not> isl (compute_test_result 2 2 2 1) \<and> \<not> isl (compute_test_result 2 2 2 2) \<and>
   \<not> np_isnan (z_stat (projr (compute_test_result 2 2 2 1))) \<and>
   np_isnan (z_stat (projr (compute_test_result 2 2 2 2))) \<and>
   \<not> np_ge (z_stat (projr (compute_test_result 2 2 2 2)))
           (z_stat (projr (compute_test_result 2 2 2 1)))"
  by (simp add: compute_defs valid_inputs_def valid_variant_def np_ge_def)

text \<open>
  Claim C7, where the z-statistic is a number: for valid inputs with at most \<open>2 ^ 20\<close>
  visitors in each arm, with the visitor counts and the control conversions fixed, if
  the pooled rate lies strictly between \<open>0\<close> and \<open>1\<close> at both numbers of variant
  conversions, then the z-statistic is a number at both, and the one at the larger
  number of variant conversions is not smaller.
\<close>

theorem z_stat_never_decreases:
  assumes "valid_inputs cv cc vv vc1" and "valid_inputs cv cc vv vc2"
    and "moderate_size cv vv" and "vc1 \<le> vc2"
    and "0 < cc + vc1" and "cc + vc2 < cv + vv"
  shows "\<exists>r1 r2 z1 z2. compute_test_result cv cc vv vc1 = Inr r1 \<and>
           compute_test_result cv cc vv vc2 = Inr r2 \<and>
           z_stat r1 = Fin z1 \<and> z_stat r2 = Fin z2 \<and> z1 \<le> z2"
proof -
  let ?z = "\<lambda>vc. (real_of_int vc / real_of_int vv - real_of_int cc / real_of_int cv) /
                sqrt ((real_of_int cc + real_of_int vc) / (real_of_int cv + real_of_int vv) *
                      (1 - (real_of_int cc + real_of_int vc) / (real_of_int cv + real_of_int vv)) *
                      (1 / real_of_int cv + 1 / real_of_int vv))"
  have nd: "0 < cc + vc1 \<and> cc + vc1 < cv + vv" "0 < cc + vc2 \<and> cc + vc2 < cv + vv"
    using assms(4-6) by linarith+
  obtain r1 where r1: "compute_test_result cv cc vv vc1 = Inr r1"
    and z1: "z_stat r1 = Fin (?z vc1)"
    using z_stat_cases [OF assms(1,3)] nd(1) by auto
  obtain r2 where r2: "compute_test_result cv cc vv vc2 = Inr r2"
    and z2: "z_stat r2 = Fin (?z vc2)"
    using z_stat_cases [OF assms(2,3)] nd(2) by auto
  have v: "0 < cv" "0 < vv" "0 \<le> cc" "cc \<le> cv"
    using assms(1) by (auto simp: valid_inputs_def valid_variant_def)
  have "0 < real_of_int cc + real_of_int vc1"
    using assms(5) by (simp flip: of_int_add)
  moreover have "real_of_int cc + real_of_int vc2 < real_of_int cv + real_of_int vv"
    using assms(6) by (simp flip: of_int_add)
  ultimately have "?z vc1 \<le> ?z vc2"
    using v assms(4) by (intro z_nondecreasing) simp_all
  then show ?thesis
    using r1 r2 z1 z2 by blast
qed

theorem z_stat_never_decreases_witness:
  "valid_inputs 2 1 2 0 \<and> valid_inputs 2 1 2 1 \<and> moderate_size 2 2 \<and> (0::int) \<le> 1 \<and>
   (0::int) < 1 + 0 \<and> (1::int) + 1 < 2 + 2 \<and>
   (\<exists>r1 r2 z1 z2. compute_test_result 2 1 2 0 = Inr r1 \<and> compute_test_result 2 1 2 1 = Inr r2 \<and>
      z_stat r1 = Fin z1 \<and> z_stat r2 = Fin z2 \<and> z1 \<le> z2)"
proof -
  have v1: "valid_inputs 2 1 2 0" and v2: "valid_inputs 2 1 2 1"
    by (simp_all add: valid_inputs_def valid_variant_def)
  have m: "moderate_size 2 2"
    by (simp add: moderate_size_def)
  have le: "(0::int) \<le> 1" and a: "(0::int) < 1 + 0" and b: "(1::int) + 1 < 2 + 2"
    by simp_all
  show ?thesis
    using v1 v2 m le a b z_stat_never_decreases [OF v1 v2 m le a b] by blast
qed

section \<open>Confidence intervals\<close>




section \<open>The sample size for 80 percent power\<close>

lemma argmin_from_bound:
  "ind < i \<Longrightarrow> argmin_from mp ind i xs < i + length xs"
proof (induction xs arbitrary: mp ind i)
  case Nil
  then show ?case by simp
next
  case (Cons x xs)
  have a: "argmin_from mp ind (Suc i) xs < Suc i + length xs"
    using Cons.IH [of ind "Suc i" mp] Cons.prems by simp
  have b: "argmin_from x i (Suc i) xs < Suc i + length xs"
    using Cons.IH [of i "Suc i" x] by simp
  show ?case
    using a b by simp
qed

lemma np_argmin_bound:
  assumes "xs \<noteq> []"
  shows "\<exists>k. np_argmin xs = Inr k \<and> k < length xs"
proof (cases xs)
  case Nil
  with assms show ?thesis by simp
next
  case (Cons x ys)
  have "argmin_from x 0 1 ys < 1 + length ys"
    by (rule argmin_from_bound) simp
  then show ?thesis
    using Cons by simp
qed

lemma argmin_from_least:
  "(argmin_from (Fin m) ind i (map Fin ys) = ind \<and> (\<forall>y\<in>set ys. m \<le> y)) \<or>
   (i \<le> argmin_from (Fin m) ind i (map Fin ys) \<and>
    argmin_from (Fin m) ind i (map Fin ys) < i + length ys \<and>
    ys ! (argmin_from (Fin m) ind i (map Fin ys) - i) \<le> m \<and>
    (\<forall>y\<in>set ys. ys ! (argmin_from (Fin m) ind i (map Fin ys) - i) \<le> y))"
proof (induction ys arbitrary: m ind i)
  case Nil
  then show ?case by simp
next
  case (Cons y ys)
  show ?case
  proof (cases "y < m")
    case False
    then have step: "argmin_from (Fin m) ind i (map Fin (y # ys)) =
                       argmin_from (Fin m) ind (Suc i) (map Fin ys)"
      by (simp add: np_ge_def)
    let ?k = "argmin_from (Fin m) ind (Suc i) (map Fin ys)"
    from Cons.IH [of m ind "Suc i"] show ?thesis
    proof
      assume "?k = ind \<and> (\<forall>y\<in>set ys. m \<le> y)"
      then show ?thesis
        using False unfolding step by auto
    next
      assume a: "Suc i \<le> ?k \<and> ?k < Suc i + length ys \<and> ys ! (?k - Suc i) \<le> m \<and>
                 (\<forall>y\<in>set ys. ys ! (?k - Suc i) \<le> y)"
      then have "(y # ys) ! (?k - i) = ys ! (?k - Suc i)"
        by (simp add: nth_Cons')
      then show ?thesis
        using a False unfolding step by auto
    qed
  next
    case True
    then have step: "argmin_from (Fin m) ind i (map Fin (y # ys)) =
                       argmin_from (Fin y) i (Suc i) (map Fin ys)"
      by (simp add: np_ge_def)
    let ?k = "argmin_from (Fin y) i (Suc i) (map Fin ys)"
    from Cons.IH [of y i "Suc i"] show ?thesis
    proof
      assume "?k = i \<and> (\<forall>z\<in>set ys. y \<le> z)"
      then show ?thesis
        using True unfolding step by auto
    next
      assume a: "Suc i \<le> ?k \<and> ?k < Suc i + length ys \<and> ys ! (?k - Suc i) \<le> y \<and>
                 (\<forall>z\<in>set ys. ys ! (?k - Suc i) \<le> z)"
      then have "(y # ys) ! (?k - i) = ys ! (?k - Suc i)"
        by (simp add: nth_Cons')
      then show ?thesis
        using a True unfolding step by auto
    qed
  qed
qed

lemma np_argmin_least:
  assumes "ys \<noteq> []"
  shows "\<exists>k. np_argmin (map Fin ys) = Inr k \<and> k < length ys \<and> (\<forall>y\<in>set ys. ys ! k \<le> y)"
proof (cases ys)
  case Nil
  with assms show ?thesis by simp
next
  case (Cons y zs)
  let ?k = "argmin_from (Fin y) 0 1 (map Fin zs)"
  have k: "np_argmin (map Fin ys) = Inr ?k"
    using Cons by simp
  from argmin_from_least [of y 0 1 zs] have "?k < length ys \<and> (\<forall>z\<in>set ys. ys ! ?k \<le> z)"
  proof
    assume "?k = 0 \<and> (\<forall>z\<in>set zs. y \<le> z)"
    then show ?thesis
      using Cons by simp
  next
    assume a: "1 \<le> ?k \<and> ?k < 1 + length zs \<and> zs ! (?k - 1) \<le> y \<and>
               (\<forall>z\<in>set zs. zs ! (?k - 1) \<le> z)"
    then have "ys ! ?k = zs ! (?k - 1)"
      using Cons by (simp add: nth_Cons')
    then show ?thesis
      using a Cons by auto
  qed
  then show ?thesis
    using k by blast
qed

lemma length_sample_sizes: "length sample_sizes = 100"
  by (simp add: sample_sizes_def linspace_def)

lemma nth_sample_sizes:
  assumes "k < 100"
  shows "sample_sizes ! k = 1000 + real k * (49000 / 99)"
  using assms by (simp add: sample_sizes_def linspace_def)

lemma sample_sizes_range:
  assumes "n \<in> set sample_sizes"
  shows "1000 \<le> n" and "n \<le> 50000"
proof -
  from assms obtain k where k: "k < 100" and n: "n = sample_sizes ! k"
    by (metis in_set_conv_nth length_sample_sizes)
  have v: "n = 1000 + real k * (49000 / 99)"
    using nth_sample_sizes [OF k] n by simp
  show "1000 \<le> n"
    unfolding v by simp
  have "real k \<le> 99"
    using k by simp
  then have "real k * (49000 / 99) \<le> 99 * (49000 / 99)"
    by (rule mult_right_mono) simp
  then show "n \<le> 50000"
    unfolding v by simp
qed

lemma sample_for_80_index:
  "\<exists>k. power_80_idx pooled d = Inr k \<and> k < 100 \<and>
       sample_for_80 pooled d = Inr (sample_sizes ! k)"
proof -
  let ?xs = "map (\<lambda>p. np_abs (np_sub p (Fin 0.8))) (powers pooled d)"
  have "?xs \<noteq> []"
    using length_sample_sizes by (auto simp: powers_def)
  from np_argmin_bound [OF this] obtain k where
    k: "np_argmin ?xs = Inr k" "k < length ?xs"
    by blast
  have "k < 100"
    using k(2) by (simp add: powers_def length_sample_sizes)
  then show ?thesis
    using k(1) by (simp add: power_80_idx_def sample_for_80_def py_bind_Inr getitem_def
        length_sample_sizes)
qed

lemma sample_for_80_closest:
  assumes "0 < pooled" and "pooled < 1"
  shows "\<exists>k. k < 100 \<and> sample_for_80 pooled d = Inr (sample_sizes ! k) \<and>
           (\<forall>n\<in>set sample_sizes. \<exists>a b.
              power_n pooled d (sample_sizes ! k) = Fin a \<and> power_n pooled d n = Fin b \<and>
              \<bar>a - 0.8\<bar> \<le> \<bar>b - 0.8\<bar>)"
proof -
  let ?pw = "\<lambda>n. 1 - std_normal_cdf (1.96 - d / sqrt (pooled * (1 - pooled) * (2 / n)))"
  let ?ys = "map (\<lambda>n. \<bar>?pw n - 0.8\<bar>) sample_sizes"
  have pw: "power_n pooled d n = Fin (?pw n)" if "n \<in> set sample_sizes" for n
  proof -
    have "0 < n"
      using sample_sizes_range(1) [OF that] by simp
    then show ?thesis
      by (rule power_n_Fin(2) [OF assms])
  qed
  have "map (\<lambda>p. np_abs (np_sub p (Fin 0.8))) (powers pooled d) = map Fin ?ys"
    by (simp add: powers_def pw np_sub_def)
  then have idx: "power_80_idx pooled d = np_argmin (map Fin ?ys)"
    by (simp only: power_80_idx_def)
  have "?ys \<noteq> []"
    using length_sample_sizes by auto
  from np_argmin_least [OF this] obtain k where
    k: "np_argmin (map Fin ?ys) = Inr k" "k < length ?ys" "\<forall>y\<in>set ?ys. ?ys ! k \<le> y"
    by blast
  have k100: "k < 100"
    using k(2) by (simp add: length_sample_sizes)
  have kmem: "sample_sizes ! k \<in> set sample_sizes"
    using k100 by (simp add: length_sample_sizes)
  have s: "sample_for_80 pooled d = Inr (sample_sizes ! k)"
    using k(1) k100 by (simp add: sample_for_80_def idx py_bind_Inr getitem_def length_sample_sizes)
  have nth: "?ys ! k = \<bar>?pw (sample_sizes ! k) - 0.8\<bar>"
    using k100 by (simp add: length_sample_sizes)
  have least: "\<bar>?pw (sample_sizes ! k) - 0.8\<bar> \<le> \<bar>?pw n - 0.8\<bar>" if "n \<in> set sample_sizes" for n
  proof -
    have "\<bar>?pw n - 0.8\<bar> \<in> set ?ys"
      using that by (simp add: image_iff) blast
    then show ?thesis
      using k(3) nth by auto
  qed
  show ?thesis
    using k100 s pw [OF kmem] pw least by blast
qed

text \<open>
  Claim C9 says that the power at the sample size found is at least the target minus a
  small tolerance. The scan reports the grid point whose power is nearest to \<open>0.8\<close>,
  however far that is: with a pooled rate of \<open>0.05\<close> and no observed difference (both
  arms \<open>500\<close> out of \<open>10000\<close>) the power is below \<open>0.03\<close> at the sample size reported.
\<close>

theorem closest_point_far_below_target:
  "\<not> isl (sample_for_80 (1 / 20) 0) \<and>
   np_lt (power_n (1 / 20) 0 (projr (sample_for_80 (1 / 20) 0))) (Fin 0.03)"
proof -
  obtain k where k: "k < 100" "sample_for_80 (1 / 20) 0 = Inr (sample_sizes ! k)"
    using sample_for_80_index [of "1 / 20" 0] by blast
  have m: "sample_sizes ! k \<in> set sample_sizes"
    using k(1) by (simp add: length_sample_sizes)
  have pos: "0 < sample_sizes ! k"
    using sample_sizes_range(1) [OF m] by simp
  have p: "power_n (1 / 20) 0 (sample_sizes ! k) = Fin (1 - std_normal_cdf 1.96)"
    using power_n_Fin(2) [of "1 / 20" "sample_sizes ! k" 0] pos by simp
  have eq: "(1.96 :: real) = 49 / 25"
    by simp
  have "1 - std_normal_cdf 1.96 < 0.03"
    using std_normal_cdf_196(1) unfolding eq by simp
  then show ?thesis
    by (simp add: k(2) p)
qed

text \<open>
  Claim C9, as the script behaves: the scan always succeeds and reports one of the
  \<open>100\<close> grid points, which lies between \<open>1000\<close> and \<open>50000\<close>; and when the pooled rate is
  strictly between \<open>0\<close> and \<open>1\<close>, the power at the reported point is a number that is at
  least as close to \<open>0.8\<close> as the power at any other grid point.
\<close>

theorem sample_for_80_grid_point:
  "\<exists>s. sample_for_80 pooled d = Inr s \<and> s \<in> set sample_sizes \<and> 1000 \<le> s \<and> s \<le> 50000 \<and>
        (0 < pooled \<and> pooled < 1 \<longrightarrow>
           (\<forall>n\<in>set sample_sizes. \<exists>a b.
              power_n pooled d s = Fin a \<and> power_n pooled d n = Fin b \<and>
              \<bar>a - 0.8\<bar> \<le> \<bar>b - 0.8\<bar>))"
proof (cases "0 < pooled \<and> pooled < 1")
  case True
  then obtain k where k: "k < 100" "sample_for_80 pooled d = Inr (sample_sizes ! k)"
    "\<forall>n\<in>set sample_sizes. \<exists>a b.
              power_n pooled d (sample_sizes ! k) = Fin a \<and> power_n pooled d n = Fin b \<and>
              \<bar>a - 0.8\<bar> \<le> \<bar>b - 0.8\<bar>"
    using sample_for_80_closest [of pooled d] by blast
  have m: "sample_sizes ! k \<in> set sample_sizes"
    using k(1) by (simp add: length_sample_sizes)
  show ?thesis
    using k(2,3) m sample_sizes_range [OF m] by blast
next
  case False
  obtain k where k: "k < 100" "sample_for_80 pooled d = Inr (sample_sizes ! k)"
    using sample_for_80_index [of pooled d] by blast
  have m: "sample_sizes ! k \<in> set sample_sizes"
    using k(1) by (simp add: length_sample_sizes)
  show ?thesis
    using k(2) m sample_sizes_range [OF m] False by blast
qed

theorem sample_for_80_grid_point_witness:
  "(0::real) < 27 / 500 \<and> (27 / 500 :: real) < 1 \<and> 1000 \<in> set sample_sizes \<and>
   (\<exists>s. sample_for_80 (27 / 500) (1 / 125) = Inr s \<and> 1000 \<le> s \<and> s \<le> 50000 \<and>
      (\<exists>a b. power_n (27 / 500) (1 / 125) s = Fin a \<and>
         power_n (27 / 500) (1 / 125) 1000 = Fin b \<and> \<bar>a - 0.8\<bar> \<le> \<bar>b - 0.8\<bar>))"
proof -
  have h: "(0::real) < 27 / 500 \<and> (27 / 500 :: real) < 1"
    by simp
  have "sample_sizes ! 0 = 1000"
    using nth_sample_sizes [of 0] by simp
  then have m: "1000 \<in> set sample_sizes"
    using length_sample_sizes by (metis nth_mem zero_less_numeral)
  show ?thesis
    using h m sample_for_80_grid_point [of "27 / 500" "1 / 125"] by blast
qed

section \<open>The relative lift\<close>

lemma relative_lift_zero_control:
  "p_control r = 0 \<Longrightarrow> relative_lift r = Inl ZeroDivisionError"
  by (simp add: relative_lift_def py_truediv_def py_bind_def)

lemma relative_lift_Inr:
  "p_control r \<noteq> 0 \<Longrightarrow> relative_lift r = Inr ((p_variant r - p_control r) / p_control r * 100)"
  by (simp add: relative_lift_def py_truediv_def py_bind_def)

lemma compute_test_result_rates:
  assumes "compute_test_result cv cc vv vc = Inr r"
  shows "p_control r = of_int cc / of_int cv" and "p_variant r = of_int vc / of_int vv"
    and "cv \<noteq> 0" and "vv \<noteq> 0"
  using assms
  by (auto simp: compute_test_result_cases Let_def split: if_splits)

text \<open>
  When the control arm has a conversion and the visitor counts are at most \<open>2 ^ 20\<close>,
  no statement of the script raises (the calls into the plotting library apart, which
  are taken not to fail).
\<close>

lemma confidence_interval_Inr:
  "visitors \<noteq> 0 \<Longrightarrow> \<exists>b. confidence_interval p visitors = Inr b"
  by (simp add: confidence_interval_def ci_margin_def py_truediv_def py_bind_def)

lemma float_int_truediv_Inr:
  assumes "0 < n" and "n \<le> 2 ^ 20"
  shows "float_int_truediv a n = Inr (a / of_int n)"
proof -
  have "real_of_int n \<le> real_of_int (2 ^ 20)"
    using assms(2) by (rule iffD2 [OF of_int_le_iff])
  then have "\<bar>real_of_int n\<bar> \<le> 2 ^ 20"
    using assms(1) by simp
  then have "\<not> float_overflow (real_of_int n)"
    by (rule not_float_overflow_moderate)
  then have "float_of_int n = Inr (real_of_int n)"
    by (simp add: float_of_int_def)
  moreover have "real_of_int n \<noteq> 0"
    using assms(1) by simp
  ultimately show ?thesis
    by (simp add: float_int_truediv_def py_bind_Inr py_truediv_Inr)
qed

lemma run_completes:
  assumes "valid_inputs cv cc vv vc" and "moderate_size cv vv" and "0 < cc"
  shows "snd (run cv cc vv vc) = None"
proof -
  have nz: "cv \<noteq> 0" "vv \<noteq> 0" "cv + vv \<noteq> 0"
    using valid_inputs_nonzero [OF assms(1)] .
  have pos: "0 < cv" "0 < vv"
    using assms(1) by (auto simp: valid_inputs_def valid_variant_def)
  have le: "cv \<le> 2 ^ 20" "vv \<le> 2 ^ 20"
    using assms(2) by (simp_all add: moderate_size_def)
  note v1 = float_int_truediv_Inr [OF pos(1) le(1)]
  note v2 = float_int_truediv_Inr [OF pos(2) le(2)]
  obtain r where r: "compute_test_result cv cc vv vc = Inr r"
    using compute_test_result_valid [OF assms(1)] by (simp add: Let_def)
  have "p_control r = real_of_int cc / real_of_int cv"
    using compute_test_result_rates(1) [OF r] .
  then have pc: "p_control r \<noteq> 0"
    using assms(3) nz(1) by simp
  note lift = relative_lift_Inr [OF pc]
  obtain b1 where b1: "confidence_interval (p_control r) cv = Inr b1"
    using confidence_interval_Inr [OF nz(1)] by blast
  obtain b2 where b2: "confidence_interval (p_variant r) vv = Inr b2"
    using confidence_interval_Inr [OF nz(2)] by blast
  obtain k where k: "sample_for_80 (p_pooled r) (p_variant r - p_control r) = Inr (sample_sizes ! k)"
    using sample_for_80_index by blast
  have f1: "figure_1 cv vv r = Inr [Savefig ''ab_test_statistical_breakdown.png'',
            Saved_note ''ab_test_statistical_breakdown.png'']"
    by (simp add: figure_1_def v1 v2 b1 b2 k py_bind_Inr)
  have f2: "figure_2 r = Inr [Savefig ''ab_test_explained.png'', Saved_note ''ab_test_explained.png'',
            Complete_note]"
    by (simp add: figure_2_def lift py_bind_Inr)
  show ?thesis
    by (simp add: run_def r lift f1 f2)
qed

text \<open>
  Claim C10: for every valid input, if the control arm has no conversion then the
  control rate is \<open>0\<close>, the relative lift of line 43 divides by it, and the run ends
  with \<open>ZeroDivisionError\<close> after the first six lines of the summary (the banner, the
  two rates and the absolute difference), before the rest of the summary and before any
  figure is saved. So a run that ends without an exception had a positive number of
  control conversions.
\<close>

theorem relative_lift_division_by_zero:
  assumes "valid_inputs cv cc vv vc"
  shows "(cc = 0 \<longrightarrow>
           run cv cc vv vc =
             ([Rule, Title, Rule, Control_rate 0, Variant_rate (of_int vc / of_int vv),
               Absolute_diff (of_int vc / of_int vv)], Some ZeroDivisionError)) \<and>
         (snd (run cv cc vv vc) = None \<longrightarrow> 0 < cc)"
proof -
  obtain r where r: "compute_test_result cv cc vv vc = Inr r"
    using compute_test_result_valid [OF assms] by (simp add: Let_def)
  note rates = compute_test_result_rates [OF r]
  have zero: "run cv cc vv vc =
             ([Rule, Title, Rule, Control_rate 0, Variant_rate (of_int vc / of_int vv),
               Absolute_diff (of_int vc / of_int vv)], Some ZeroDivisionError)" if "cc = 0"
  proof -
    have pc: "p_control r = 0"
      using rates(1) that by simp
    show ?thesis
      by (simp add: run_def r relative_lift_zero_control [OF pc] summary_head_def pc rates(2))
  qed
  have "cc \<noteq> 0" if "snd (run cv cc vv vc) = None"
    using that zero by auto
  moreover have "0 \<le> cc"
    using assms by (simp add: valid_inputs_def valid_variant_def)
  ultimately show ?thesis
    using zero by auto
qed

theorem relative_lift_division_by_zero_witness:
  "valid_inputs 100 0 100 4 \<and>
   run 100 0 100 4 =
     ([Rule, Title, Rule, Control_rate 0, Variant_rate (1 / 25), Absolute_diff (1 / 25)],
      Some ZeroDivisionError) \<and>
   valid_inputs 100 5 100 4 \<and> snd (run 100 5 100 4) = None \<and> (0::int) < 5"
proof -
  have v: "valid_inputs 100 0 100 4" and w: "valid_inputs 100 5 100 4"
    by (simp_all add: valid_inputs_def valid_variant_def)
  from relative_lift_division_by_zero [OF v]
  have "run 100 0 100 4 =
     ([Rule, Title, Rule, Control_rate 0, Variant_rate (of_int 4 / of_int 100),
       Absolute_diff (of_int 4 / of_int 100)], Some ZeroDivisionError)"
    by blast
  moreover have n: "snd (run 100 5 100 4) = None"
    by (rule run_completes [OF w]) (simp_all add: moderate_size_def)
  moreover have "(0::int) < 5"
    using relative_lift_division_by_zero [OF w] n by blast
  ultimately show ?thesis
    using v w by simp
qed

end
